theory Spec2Isabelle
  imports Main "HOL-Library.Word" "HOL-Library.Signed_Division"
begin

unbundle bit_operations_syntax

section \<open>Credentials encryption (model/account/credentials.go)\<close>

text \<open>
  Go strings and byte slices are both sequences of bytes; \<open>len\<close> counts bytes and the
  conversions \<open>string(b)\<close>, \<open>[]byte(s)\<close> keep them, so both are byte lists here.
\<close>

type_synonym byte = "8 word"
type_synonym bytes = "byte list"

datatype error = errCannotDecrypt | errCannotEncrypt | ErrBadCredentials

text \<open>A call either returns its (multiple) results or panics.\<close>

datatype 'a result = Returns 'a | Panics

definition cipherHeader :: bytes where
  "cipherHeader = [0x6E, 0x61, 0x63, 0x6C]"

definition nonceLen :: nat where
  "nonceLen = 24"

definition plainPrefixLen :: nat where
  "plainPrefixLen = 4"

text \<open>
  \<open>keyring.NACLKey\<close>, declared in a package that is not among the sources: a pair of
  32-byte keys read through \<open>PublicKey()\<close> and \<open>PrivateKey()\<close>, behind a pointer; the
  pointer is an option, \<open>None\<close> being nil.
\<close>

record NACLKey =
  publicKey :: bytes
  privateKey :: bytes

text \<open>
  The library routines the file calls and which are not part of the repository:
  \<open>box.Seal\<close> and \<open>box.Open\<close> of golang.org/x/crypto/nacl/box (message or ciphertext,
  nonce, public key, private key; \<open>Seal\<close> gives the bytes it appends to its \<open>out\<close>
  argument, \<open>Open\<close> gives \<open>None\<close> when its \<open>ok\<close> result is false), and
  \<open>EncodeToString\<close> and \<open>DecodeString\<close> of \<open>base64.StdEncoding\<close> (\<open>None\<close> for a
  decoding error). They are parameters of the model.
\<close>

record extern =
  box_Seal :: "bytes \<Rightarrow> bytes \<Rightarrow> bytes \<Rightarrow> bytes \<Rightarrow> bytes"
  box_Open :: "bytes \<Rightarrow> bytes \<Rightarrow> bytes \<Rightarrow> bytes \<Rightarrow> bytes option"
  EncodeToString :: "bytes \<Rightarrow> bytes"
  DecodeString :: "bytes \<Rightarrow> bytes option"

text \<open>
  \<open>binary.BigEndian.PutUint32(b, v)\<close> writes \<open>byte(v >> 24)\<close>, \<open>byte(v >> 16)\<close>,
  \<open>byte(v >> 8)\<close>, \<open>byte(v)\<close> into \<open>b[0..3]\<close>; this gives the four bytes written.
\<close>

definition PutUint32 :: "32 word \<Rightarrow> bytes" where
  "PutUint32 v = [ucast (drop_bit 24 v), ucast (drop_bit 16 v), ucast (drop_bit 8 v), ucast v]"

text \<open>
  \<open>binary.BigEndian.Uint32(b)\<close> reads \<open>b[0..3]\<close> and panics (index out of range) on a
  slice shorter than four bytes: \<open>None\<close> is the panic.
\<close>

fun Uint32 :: "bytes \<Rightarrow> 32 word option" where
  "Uint32 (b0 # b1 # b2 # b3 # _) =
     Some (ucast b3 OR push_bit 8 (ucast b2) OR push_bit 16 (ucast b1) OR push_bit 24 (ucast b0))"
| "Uint32 _ = None"

text \<open>\<open>bytes.HasPrefix(s, prefix)\<close>.\<close>

definition HasPrefix :: "bytes \<Rightarrow> bytes \<Rightarrow> bool" where
  "HasPrefix s pre = (length pre \<le> length s \<and> take (length pre) s = pre)"

text \<open>
  \<open>EncryptCredentialsWithKey\<close>. The argument \<open>rnd\<close> is what \<open>io.ReadFull(rand.Reader, nonce[:])\<close>
  does: \<open>Some n\<close> with the 24 bytes read, \<open>None\<close> for a read error, on which the code panics.
  \<open>creds\<close> is the login length on four bytes (the conversion \<open>uint32(loginLen)\<close> keeps the
  low 32 bits), then the login, then the password; the output is the header, the nonce and
  the sealed \<open>creds\<close>, in base64.
\<close>

definition EncryptCredentialsWithKey ::
  "extern \<Rightarrow> bytes option \<Rightarrow> NACLKey option \<Rightarrow> bytes \<Rightarrow> bytes \<Rightarrow> (bytes \<times> error option) result" where
  "EncryptCredentialsWithKey ext rnd encryptorKey login password =
     (case encryptorKey of
        None \<Rightarrow> Returns ([], Some errCannotEncrypt)
      | Some k \<Rightarrow>
          let loginLen = length login;
              creds = PutUint32 (of_nat loginLen) @ login @ password
          in (case rnd of
                None \<Rightarrow> Panics
              | Some nonce \<Rightarrow>
                  let encryptedOut = cipherHeader @ nonce;
                      encryptedCreds = encryptedOut @ box_Seal ext creds nonce (publicKey k) (privateKey k)
                  in Returns (EncodeToString ext encryptedCreds, None)))"

text \<open>
  \<open>DecryptCredentialsWithKey\<close>. The two format checks come before the key is touched;
  \<open>decryptorKey.PublicKey()\<close> on a nil key is a nil dereference. \<open>int(Uint32(...))\<close> is the
  unsigned value (\<open>int\<close> has 64 bits).
\<close>

definition DecryptCredentialsWithKey ::
  "extern \<Rightarrow> NACLKey option \<Rightarrow> bytes \<Rightarrow> (bytes \<times> bytes \<times> error option) result" where
  "DecryptCredentialsWithKey ext decryptorKey encryptedCreds =
     (if \<not> HasPrefix encryptedCreds cipherHeader then Returns ([], [], Some ErrBadCredentials)
      else
        let encryptedCreds1 = drop (length cipherHeader) encryptedCreds
        in if length encryptedCreds1 < nonceLen then Returns ([], [], Some ErrBadCredentials)
           else
             let nonce = take nonceLen encryptedCreds1;
                 encryptedCreds2 = drop nonceLen encryptedCreds1
             in (case decryptorKey of
                   None \<Rightarrow> Panics
                 | Some k \<Rightarrow>
                     (case box_Open ext encryptedCreds2 nonce (publicKey k) (privateKey k) of
                        None \<Rightarrow> Returns ([], [], Some ErrBadCredentials)
                      | Some creds \<Rightarrow>
                          (case Uint32 creds of
                             None \<Rightarrow> Panics
                           | Some w \<Rightarrow>
                               let loginLen = unat w;
                                   creds1 = drop plainPrefixLen creds
                               in if length creds1 < loginLen
                                  then Returns ([], [], Some ErrBadCredentials)
                                  else Returns (take loginLen creds1, drop loginLen creds1, None)))))"

text \<open>
  What the model asks of the libraries for one call: \<open>box.Open\<close> opens what \<open>box.Seal\<close>
  sealed under the same 24-byte nonce and key pair, and \<open>DecodeString\<close> decodes what
  \<open>EncodeToString\<close> encoded.
\<close>

definition box_opens :: "extern \<Rightarrow> bool" where
  "box_opens ext =
     (\<forall>m n pk sk. length n = nonceLen \<longrightarrow> box_Open ext (box_Seal ext m n pk sk) n pk sk = Some m)"

definition base64_decodes :: "extern \<Rightarrow> bool" where
  "base64_decodes ext = (\<forall>b. DecodeString ext (EncodeToString ext b) = Some b)"

text \<open>
  A small instance of the library parameters, for evaluating the two functions on concrete
  inputs: sealing reverses the message and appends the first nonce byte, base64 is the
  identity.
\<close>

definition example_extern :: extern where
  "example_extern =
     \<lparr>box_Seal = (\<lambda>m n pk sk. rev m @ take 1 n),
      box_Open = (\<lambda>c n pk sk. if c \<noteq> [] \<and> take 1 n = [last c] then Some (rev (butlast c)) else None),
      EncodeToString = (\<lambda>b. b),
      DecodeString = (\<lambda>s. Some s)\<rparr>"

definition example_key :: NACLKey where
  "example_key = \<lparr>publicKey = replicate 32 1, privateKey = replicate 32 2\<rparr>"


section \<open>The lock package: the factory and the long-operation wrapper\<close>

subsection \<open>The factory \<open>New\<close>\<close>

text \<open>
  A \<open>Getter\<close> value is one of the two implementations; \<open>'c\<close> is the redis client the
  distributed one keeps. The argument of \<open>New\<close> is an interface value, \<open>None\<close> being nil.
\<close>

datatype 'c Getter = InMemoryLockGetter | RedisLockGetter 'c

text \<open>
  Modelled from the spec: the constructors \<open>NewInMemory\<close> and \<open>NewRedisLockGetter\<close> are
  not among the sources; each returns the implementation it is named after, the in-memory
  one and the distributed one built on the given client.
\<close>

definition NewInMemory :: "'c Getter" where
  "NewInMemory = InMemoryLockGetter"

definition NewRedisLockGetter :: "'c \<Rightarrow> 'c Getter" where
  "NewRedisLockGetter client = RedisLockGetter client"

definition New :: "'c option \<Rightarrow> 'c Getter" where
  "New client = (case client of None \<Rightarrow> NewInMemory | Some c \<Rightarrow> NewRedisLockGetter c)"

subsection \<open>The wrapped locker and the runtime objects\<close>

text \<open>
  The interface \<open>longOperationLocker\<close>: an implementation has a state \<open>'s\<close>, its \<open>Lock\<close>
  returns an error (\<open>None\<close> is nil) and \<open>Unlock\<close> and \<open>Extend\<close> return nothing.
\<close>

record ('s, 'e) longOperationLocker =
  lk_Lock :: "'s \<Rightarrow> 'e option \<times> 's"
  lk_Unlock :: "'s \<Rightarrow> 's"
  lk_Extend :: "'s \<Rightarrow> 's"

text \<open>The calls made on the wrapped locker, oldest first (a history kept beside the state).\<close>

datatype call = CallLock | CallExtend | CallUnlock

text \<open>
  A \<open>time.Ticker\<close> of the Go runtime: its period in nanoseconds (a \<open>time.Duration\<close>, an
  \<open>int64\<close>; only its sign and its third matter here, so it is an \<open>int\<close>), whether \<open>Stop\<close>
  was called, and its channel \<open>C\<close>, which has room for one tick: \<open>True\<close> when a tick is
  waiting in it.
\<close>

record Ticker =
  period :: int
  stopped :: bool
  C :: bool

text \<open>
  \<open>time.NewTicker(d)\<close> panics when \<open>d\<close> is not positive (\<open>None\<close>); otherwise the new ticker
  is allocated after the existing ones and its position is the pointer returned.
\<close>

definition NewTicker :: "int \<Rightarrow> Ticker list \<Rightarrow> (nat \<times> Ticker list) option" where
  "NewTicker d tks =
     (if d \<le> 0 then None
      else Some (length tks, tks @ [\<lparr>period = d, stopped = False, C = False\<rparr>]))"

text \<open>\<open>Stop\<close> turns the ticker off; it neither closes nor empties the channel.\<close>

definition Stop :: "nat \<Rightarrow> Ticker list \<Rightarrow> Ticker list" where
  "Stop t tks = (if t < length tks then tks[t := (tks ! t)\<lparr>stopped := True\<rparr>] else tks)"

text \<open>
  The runtime fires a ticker that is not stopped: the tick goes into the channel, or is
  dropped when one is already waiting there.
\<close>

definition fire :: "nat \<Rightarrow> Ticker list \<Rightarrow> Ticker list" where
  "fire t tks =
     (if t < length tks \<and> \<not> stopped (tks ! t) then tks[t := (tks ! t)\<lparr>C := True\<rparr>] else tks)"

text \<open>
  The renewal goroutine, by the statement it is about to run (source lines 64 to 76 and
  the deferred \<open>l.mu.Unlock()\<close> of line 62), and its local variable \<open>ch\<close>.
\<close>

datatype rpc =
    R_lock1     \<comment> \<open>line 64: \<open>l.mu.Lock()\<close>\<close>
  | R_test1     \<comment> \<open>line 65: \<open>if l.tick == nil\<close>\<close>
  | R_chan      \<comment> \<open>line 68: \<open>ch := l.tick.C\<close>\<close>
  | R_unlock1   \<comment> \<open>line 69: \<open>l.mu.Unlock()\<close>\<close>
  | R_recv      \<comment> \<open>line 70: \<open><-ch\<close>\<close>
  | R_lock2     \<comment> \<open>line 71: \<open>l.mu.Lock()\<close>\<close>
  | R_test2     \<comment> \<open>line 72: \<open>if l.tick == nil\<close>\<close>
  | R_extend    \<comment> \<open>line 75: \<open>l.lock.Extend()\<close>\<close>
  | R_unlock2   \<comment> \<open>line 76: \<open>l.mu.Unlock()\<close>\<close>
  | R_defer     \<comment> \<open>\<open>return\<close>: the deferred \<open>l.mu.Unlock()\<close>\<close>
  | R_exit      \<comment> \<open>the goroutine has ended\<close>
  | R_panic     \<comment> \<open>nil dereference, or unlock of an unlocked mutex\<close>

record goroutine =
  pc :: rpc
  ch :: "nat option"

text \<open>The struct \<open>longOperation\<close>; \<open>tick\<close> points to a ticker of the runtime or is nil.\<close>

record 's longOperation =
  lock :: 's
  mu :: bool
  tick :: "nat option"
  timeout :: int

text \<open>
  The caller of the wrapper, which makes one \<open>Lock()\<close> and, when that returned nil, one
  \<open>Unlock()\<close>: where it is, by the statement of \<open>Unlock\<close> it is about to run.
\<close>

datatype cpc =
    C_init      \<comment> \<open>about to call \<open>Lock()\<close>\<close>
  | C_failed    \<comment> \<open>\<open>Lock()\<close> returned an error\<close>
  | C_panic     \<comment> \<open>a panic in the caller\<close>
  | C_held      \<comment> \<open>\<open>Lock()\<close> returned nil; about to call \<open>Unlock()\<close>\<close>
  | U_lock      \<comment> \<open>line 83: \<open>l.mu.Lock()\<close>\<close>
  | U_test      \<comment> \<open>line 85: \<open>if l.tick != nil\<close>\<close>
  | U_stop      \<comment> \<open>line 86: \<open>l.tick.Stop()\<close>\<close>
  | U_clear     \<comment> \<open>line 87: \<open>l.tick = nil\<close>\<close>
  | U_inner     \<comment> \<open>line 89: \<open>l.lock.Unlock()\<close>\<close>
  | U_defer     \<comment> \<open>\<open>return\<close>: the deferred \<open>l.mu.Unlock()\<close> of line 84\<close>
  | C_done      \<comment> \<open>\<open>Unlock()\<close> has returned\<close>

text \<open>The wrapper with the runtime around it: tickers, goroutines, the call history.\<close>

record 's world =
  wrapper :: "'s longOperation"
  tickers :: "Ticker list"
  goroutines :: "goroutine list"
  calls :: "call list"
  caller :: cpc

subsection \<open>\<open>longOperation.Lock\<close>\<close>

text \<open>
  Lines 56 to 80. The wrapped \<open>Lock\<close> is called first and its error returned as it is.
  Otherwise the ticker is made with period \<open>l.timeout / 3\<close> (Go's integer division rounds
  towards zero, which is \<open>sdiv\<close>; dividing an \<open>int64\<close> by 3 cannot overflow), stored in
  \<open>l.tick\<close>, and the \<open>go\<close> statement adds one goroutine at the head of its loop.
\<close>

definition longOperation_Lock ::
  "('s, 'e) longOperationLocker \<Rightarrow> 's world \<Rightarrow> 'e option result \<times> 's world" where
  "longOperation_Lock L w =
     (let (err, s') = lk_Lock L (lock (wrapper w));
          w1 = w\<lparr>wrapper := (wrapper w)\<lparr>lock := s'\<rparr>, calls := calls w @ [CallLock]\<rparr>
      in case err of
           Some e \<Rightarrow> (Returns (Some e), w1)
         | None \<Rightarrow>
             (case NewTicker (timeout (wrapper w1) sdiv 3) (tickers w1) of
                None \<Rightarrow> (Panics, w1)
              | Some (t, tks) \<Rightarrow>
                  let w2 = w1\<lparr>wrapper := (wrapper w1)\<lparr>tick := Some t\<rparr>, tickers := tks\<rparr>;
                      w3 = w2\<lparr>goroutines := goroutines w2 @ [\<lparr>pc = R_lock1, ch = None\<rparr>]\<rparr>
                  in (Returns None, w3)))"

subsection \<open>The renewal goroutine\<close>

definition set_pc :: "nat \<Rightarrow> rpc \<Rightarrow> 's world \<Rightarrow> 's world" where
  "set_pc i p w = w\<lparr>goroutines := (goroutines w)[i := (goroutines w ! i)\<lparr>pc := p\<rparr>]\<rparr>"

definition set_mu :: "bool \<Rightarrow> 's world \<Rightarrow> 's world" where
  "set_mu b w = w\<lparr>wrapper := (wrapper w)\<lparr>mu := b\<rparr>\<rparr>"

text \<open>
  One statement of goroutine \<open>i\<close>. \<open>l.mu.Lock()\<close> waits while the mutex is locked and the
  receive waits while the channel is empty: a waiting goroutine leaves the world as it is.
  \<open>l.mu.Unlock()\<close> on an unlocked mutex is a fatal error, \<open>l.tick.C\<close> on a nil \<open>l.tick\<close>
  a nil dereference.
\<close>

definition renewal_step :: "('s, 'e) longOperationLocker \<Rightarrow> nat \<Rightarrow> 's world \<Rightarrow> 's world" where
  "renewal_step L i w =
     (if length (goroutines w) \<le> i then w
      else
        let g = goroutines w ! i
        in case pc g of
             R_lock1 \<Rightarrow> if mu (wrapper w) then w else set_pc i R_test1 (set_mu True w)
           | R_test1 \<Rightarrow> if tick (wrapper w) = None then set_pc i R_defer w else set_pc i R_chan w
           | R_chan \<Rightarrow>
               (case tick (wrapper w) of
                  None \<Rightarrow> set_pc i R_panic w
                | Some t \<Rightarrow> w\<lparr>goroutines := (goroutines w)[i := \<lparr>pc = R_unlock1, ch = Some t\<rparr>]\<rparr>)
           | R_unlock1 \<Rightarrow>
               if mu (wrapper w) then set_pc i R_recv (set_mu False w) else set_pc i R_panic w
           | R_recv \<Rightarrow>
               (case ch g of
                  None \<Rightarrow> w
                | Some t \<Rightarrow>
                    if t < length (tickers w) \<and> C (tickers w ! t)
                    then set_pc i R_lock2 (w\<lparr>tickers := (tickers w)[t := (tickers w ! t)\<lparr>C := False\<rparr>]\<rparr>)
                    else w)
           | R_lock2 \<Rightarrow> if mu (wrapper w) then w else set_pc i R_test2 (set_mu True w)
           | R_test2 \<Rightarrow> if tick (wrapper w) = None then set_pc i R_defer w else set_pc i R_extend w
           | R_extend \<Rightarrow>
               set_pc i R_unlock2
                 (w\<lparr>wrapper := (wrapper w)\<lparr>lock := lk_Extend L (lock (wrapper w))\<rparr>,
                    calls := calls w @ [CallExtend]\<rparr>)
           | R_unlock2 \<Rightarrow>
               if mu (wrapper w) then set_pc i R_lock1 (set_mu False w) else set_pc i R_panic w
           | R_defer \<Rightarrow>
               if mu (wrapper w) then set_pc i R_exit (set_mu False w) else set_pc i R_panic w
           | R_exit \<Rightarrow> w
           | R_panic \<Rightarrow> w)"

subsection \<open>\<open>longOperation.Unlock\<close> and the caller\<close>

text \<open>
  Lines 82 to 90, one statement at a time: the mutex is taken, the ticker is stopped and
  \<open>l.tick\<close> cleared when it is not nil, the wrapped \<open>Unlock\<close> is called, and the deferred
  \<open>l.mu.Unlock()\<close> runs on return.
\<close>

definition longOperation_Unlock_step ::
  "('s, 'e) longOperationLocker \<Rightarrow> 's world \<Rightarrow> 's world" where
  "longOperation_Unlock_step L w =
     (case caller w of
        U_lock \<Rightarrow> if mu (wrapper w) then w else (set_mu True w)\<lparr>caller := U_test\<rparr>
      | U_test \<Rightarrow> if tick (wrapper w) \<noteq> None then w\<lparr>caller := U_stop\<rparr> else w\<lparr>caller := U_inner\<rparr>
      | U_stop \<Rightarrow>
          (case tick (wrapper w) of
             None \<Rightarrow> w\<lparr>caller := C_panic\<rparr>
           | Some t \<Rightarrow> w\<lparr>tickers := Stop t (tickers w), caller := U_clear\<rparr>)
      | U_clear \<Rightarrow> w\<lparr>wrapper := (wrapper w)\<lparr>tick := None\<rparr>, caller := U_inner\<rparr>
      | U_inner \<Rightarrow>
          w\<lparr>wrapper := (wrapper w)\<lparr>lock := lk_Unlock L (lock (wrapper w))\<rparr>,
            calls := calls w @ [CallUnlock], caller := U_defer\<rparr>
      | U_defer \<Rightarrow>
          if mu (wrapper w) then (set_mu False w)\<lparr>caller := C_done\<rparr> else w\<lparr>caller := C_panic\<rparr>
      | _ \<Rightarrow> w)"

definition caller_step :: "('s, 'e) longOperationLocker \<Rightarrow> 's world \<Rightarrow> 's world" where
  "caller_step L w =
     (case caller w of
        C_init \<Rightarrow>
          (case longOperation_Lock L w of
             (Returns None, w') \<Rightarrow> w'\<lparr>caller := C_held\<rparr>
           | (Returns (Some e), w') \<Rightarrow> w'\<lparr>caller := C_failed\<rparr>
           | (Panics, w') \<Rightarrow> w'\<lparr>caller := C_panic\<rparr>)
      | C_held \<Rightarrow> w\<lparr>caller := U_lock\<rparr>
      | C_failed \<Rightarrow> w
      | C_panic \<Rightarrow> w
      | C_done \<Rightarrow> w
      | _ \<Rightarrow> longOperation_Unlock_step L w)"

subsection \<open>Interleavings\<close>

text \<open>
  A schedule says who moves next: the caller, goroutine \<open>i\<close>, or the runtime firing
  ticker \<open>t\<close>. Every interleaving of the statements is the run of some schedule.
\<close>

datatype action = Caller | Task nat | Fire nat

definition step :: "('s, 'e) longOperationLocker \<Rightarrow> action \<Rightarrow> 's world \<Rightarrow> 's world" where
  "step L a w =
     (case a of
        Caller \<Rightarrow> caller_step L w
      | Task i \<Rightarrow> renewal_step L i w
      | Fire t \<Rightarrow> w\<lparr>tickers := fire t (tickers w)\<rparr>)"

fun run :: "('s, 'e) longOperationLocker \<Rightarrow> action list \<Rightarrow> 's world \<Rightarrow> 's world" where
  "run L [] w = w"
| "run L (a # sched) w = run L sched (step L a w)"

text \<open>A fresh wrapper: lock state \<open>s\<close>, the mutex unlocked, no ticker, the given timeout.\<close>

definition init_world :: "'s \<Rightarrow> int \<Rightarrow> 's world" where
  "init_world s d =
     \<lparr>wrapper = \<lparr>lock = s, mu = False, tick = None, timeout = d\<rparr>,
      tickers = [], goroutines = [], calls = [], caller = C_init\<rparr>"

text \<open>
  A wrapped locker for evaluating schedules: its state counts the calls that reached it;
  \<open>Lock\<close> fails with error \<open>0\<close> from the state \<open>13\<close> and succeeds elsewhere.
\<close>

definition counting_locker :: "(nat, nat) longOperationLocker" where
  "counting_locker =
     \<lparr>lk_Lock = (\<lambda>n. if n = 13 then (Some 0, n) else (None, Suc n)),
      lk_Unlock = (\<lambda>n. n + 100),
      lk_Extend = (\<lambda>n. n + 10)\<rparr>"

text \<open>Thirty seconds in nanoseconds, the timeout used in the evaluations.\<close>

definition thirty_seconds :: int where
  "thirty_seconds = 30000000000"


subsection \<open>The invariant of the interleavings\<close>

text \<open>
  Which statements run with the mutex held, in the goroutine and in \<open>Unlock\<close>; where the
  caller is with respect to line 87; and the invariant of every world reached from a
  fresh wrapper: no goroutine before a successful \<open>Lock()\<close> and one after it, with one
  ticker, the mutex locked exactly when one of the two holds it, never both, \<open>l.tick\<close>
  non-nil exactly until line 87 has run, and the goroutine between a nil test and the next
  \<open>l.mu.Unlock()\<close> only while \<open>l.tick\<close> is non-nil.
\<close>

definition holdsR :: "rpc \<Rightarrow> bool" where
  "holdsR p = (p \<in> {R_test1, R_chan, R_unlock1, R_test2, R_extend, R_unlock2, R_defer})"

definition holdsC :: "cpc \<Rightarrow> bool" where
  "holdsC c = (c \<in> {U_test, U_stop, U_clear, U_inner, U_defer})"

definition before_clear :: "cpc \<Rightarrow> bool" where
  "before_clear c = (c \<in> {C_held, U_lock, U_test, U_stop, U_clear})"

definition cleared :: "cpc \<Rightarrow> bool" where
  "cleared c = (c \<in> {U_inner, U_defer, C_done})"

definition lock_inv :: "'s world \<Rightarrow> bool" where
  "lock_inv w =
     (case goroutines w of
        [] \<Rightarrow> caller w \<in> {C_init, C_failed, C_panic} \<and> tickers w = []
            \<and> \<not> mu (wrapper w) \<and> tick (wrapper w) = None
      | [g] \<Rightarrow>
          length (tickers w) = 1
          \<and> (before_clear (caller w) \<or> cleared (caller w))
          \<and> tick (wrapper w) = (if before_clear (caller w) then Some 0 else None)
          \<and> mu (wrapper w) = (holdsC (caller w) \<or> holdsR (pc g))
          \<and> \<not> (holdsC (caller w) \<and> holdsR (pc g))
          \<and> (pc g \<in> {R_chan, R_unlock1, R_extend, R_unlock2} \<longrightarrow> tick (wrapper w) \<noteq> None)
          \<and> pc g \<noteq> R_panic
      | _ \<Rightarrow> False)"

definition unlocking :: "cpc \<Rightarrow> bool" where
  "unlocking c = (c \<in> {U_test, U_stop, U_clear, U_inner, U_defer, C_done})"

definition waiting :: "nat \<Rightarrow> nat \<Rightarrow> 's world \<Rightarrow> bool" where
  "waiting i t w =
     (i < length (goroutines w) \<and> goroutines w ! i = \<lparr>pc = R_recv, ch = Some t\<rparr>
      \<and> t < length (tickers w) \<and> \<not> stopped (tickers w ! t) \<and> \<not> C (tickers w ! t)
      \<and> tick (wrapper w) = Some t \<and> \<not> mu (wrapper w))"

definition renew_start :: "nat \<Rightarrow> action list" where
  "renew_start i = [Task i, Task i, Task i, Task i]"

definition renew_cycle :: "nat \<Rightarrow> nat \<Rightarrow> action list" where
  "renew_cycle i t =
     [Fire t, Task i, Task i, Task i, Task i, Task i, Task i, Task i, Task i, Task i]"


subsection \<open>Schedules used in the evaluations\<close>

text \<open>
  \<open>Lock()\<close>, the goroutine up to its receive, one tick delivered and received, then
  \<open>Unlock()\<close> up to and including line 87.
\<close>

definition sched_cleared :: "action list" where
  "sched_cleared =
     [Caller, Task 0, Task 0, Task 0, Task 0, Fire 0, Task 0,
      Caller, Caller, Caller, Caller, Caller]"

text \<open>What may follow: the goroutine, the rest of \<open>Unlock()\<close> and the runtime take turns.\<close>

definition sched_after :: "action list" where
  "sched_after = [Task 0, Caller, Task 0, Caller, Fire 0, Task 0, Task 0, Task 0, Task 0]"

text \<open>
  \<open>Lock()\<close>, the goroutine up to its receive (lines 64 to 70), then the whole of
  \<open>Unlock()\<close> before any tick.
\<close>

definition sched_unlock_before_tick :: "action list" where
  "sched_unlock_before_tick =
     [Caller, Task 0, Task 0, Task 0, Task 0,
      Caller, Caller, Caller, Caller, Caller, Caller, Caller]"

subsection \<open>Ticks received and \<open>Extend\<close> calls\<close>

text \<open>
  The number of \<open>Extend\<close> calls in the history; whether a goroutine is between the
  receive of a tick and the \<open>Extend\<close> call for it (lines 71 to 75); whether a step of a
  schedule takes a tick from a ticker channel (the receive of line 70 finds one), and the
  number of ticks taken along a schedule.
\<close>

definition extends :: "'s world \<Rightarrow> nat" where
  "extends w = length (filter (\<lambda>c. c = CallExtend) (calls w))"

definition inflight :: "rpc \<Rightarrow> nat" where
  "inflight p = (if p = R_lock2 \<or> p = R_test2 \<or> p = R_extend then 1 else 0)"

definition takes_tick :: "action \<Rightarrow> 's world \<Rightarrow> bool" where
  "takes_tick a w =
     (case a of
        Task i \<Rightarrow>
          i < length (goroutines w) \<and> pc (goroutines w ! i) = R_recv
          \<and> (case ch (goroutines w ! i) of
                None \<Rightarrow> False
              | Some t \<Rightarrow> t < length (tickers w) \<and> C (tickers w ! t))
      | _ \<Rightarrow> False)"

fun received :: "('s, 'e) longOperationLocker \<Rightarrow> action list \<Rightarrow> 's world \<Rightarrow> nat" where
  "received L [] w = 0"
| "received L (a # sched) w = (if takes_tick a w then 1 else 0) + received L sched (step L a w)"

text \<open>
  The world a fresh wrapper is in when the caller's \<open>Lock()\<close> has run.
\<close>

definition locked_world :: "('s, 'e) longOperationLocker \<Rightarrow> 's \<Rightarrow> int \<Rightarrow> 's world" where
  "locked_world L s d = step L Caller (init_world s d)"

text \<open>
  What holds in every world reached after a successful \<open>Lock()\<close> on a fresh wrapper of
  timeout \<open>d\<close>, \<open>r\<close> being the number of ticks received so far: there is one goroutine and
  one ticker, of period \<open>d / 3\<close>, stopped exactly when line 86 has run; the goroutine
  receives from that ticker; it has left its loop only if \<open>l.tick\<close> is nil; and every
  tick received has had its \<open>Extend\<close> call or is on its way to it, but for at most one
  tick, received before the goroutine found \<open>l.tick\<close> nil and left.
\<close>

definition renew_inv :: "int \<Rightarrow> nat \<Rightarrow> 's world \<Rightarrow> bool" where
  "renew_inv d r w =
     (\<exists>g tk. goroutines w = [g] \<and> tickers w = [tk]
        \<and> period tk = d sdiv 3
        \<and> stopped tk = (caller w \<in> {U_clear, U_inner, U_defer, C_done})
        \<and> (pc g = R_unlock1 \<or> pc g = R_recv \<longrightarrow> ch g = Some 0)
        \<and> (pc g = R_defer \<or> pc g = R_exit \<longrightarrow> tick (wrapper w) = None)
        \<and> (r = extends w + inflight (pc g)
            \<or> r = extends w + 1 \<and> (pc g = R_defer \<or> pc g = R_exit)))"

text \<open>
  A slow receiver: the goroutine receives a tick and, while it is about to call
  \<open>Extend()\<close>, the ticker fires twice; the goroutine then goes round its loop until it
  waits at an empty channel.
\<close>

definition sched_tick_dropped :: "action list" where
  "sched_tick_dropped =
     [Caller, Task 0, Task 0, Task 0, Task 0,
      Fire 0, Task 0, Task 0, Task 0,
      Fire 0, Fire 0,
      Task 0, Task 0, Task 0, Task 0, Task 0, Task 0,
      Task 0, Task 0, Task 0, Task 0, Task 0,
      Task 0, Task 0, Task 0, Task 0]"

text \<open>
  After \<open>Lock()\<close>: the goroutine reaches its receive and the caller calls \<open>Unlock()\<close>,
  which has not taken the mutex yet.
\<close>

definition sched_unlock_called :: "action list" where
  "sched_unlock_called = [Task 0, Task 0, Task 0, Task 0, Caller]"


section \<open>The key namer and the two backends (modelled from the spec)\<close>

subsection \<open>The key namer\<close>

text \<open>
  Modelled from the spec: the function that names a lock is not among the sources (only
  the comment of \<open>Getter.ReadWrite\<close> on the convention is). The spec gives the lock key as
  \<open>tenant-identifier + "/" + resource-name\<close>.
\<close>

definition key :: "string \<Rightarrow> string \<Rightarrow> string" where
  "key tenant name = tenant @ ''/'' @ name"

subsection \<open>The distributed backend\<close>

text \<open>
  Modelled from the spec: the distributed implementation is not among the sources. A
  lease is a token with an expiry time, stored under the key; the store also keeps the
  number of readers of each key. An entry whose expiry time has come is gone: \<open>live\<close> is
  what a lookup finds.
\<close>

type_synonym client = nat

record lease =
  token :: nat
  expiry :: nat

text \<open>
  Modelled from the spec: the backing store (leases and reader counts) with its clock, the
  next fresh token (tokens are unique per acquisition), and for each lock object (a client
  and a key) the token it keeps from a successful \<open>Lock()\<close> until its \<open>Unlock()\<close>.
\<close>

record dworld =
  leases :: "string \<Rightarrow> lease option"
  readers :: "string \<Rightarrow> nat"
  now :: nat
  next_token :: nat
  held :: "client \<times> string \<Rightarrow> nat option"

definition live :: "dworld \<Rightarrow> string \<Rightarrow> lease option" where
  "live w k =
     (case leases w k of
        None \<Rightarrow> None
      | Some l \<Rightarrow> if now w < expiry l then Some l else None)"

text \<open>
  Modelled from the spec: the store's atomic operations, in the spec's words: set if absent
  with expiry (for a writer, after the check that no reader is counted), delete if the
  stored value equals my token, and reset the expiry to now plus the lease only if the
  stored token still matches.
\<close>

definition set_if_absent :: "string \<Rightarrow> nat \<Rightarrow> nat \<Rightarrow> dworld \<Rightarrow> bool \<times> dworld" where
  "set_if_absent k tok ttl w =
     (if live w k = None \<and> readers w k = 0
      then (True, w\<lparr>leases := (leases w)(k \<mapsto> \<lparr>token = tok, expiry = now w + ttl\<rparr>)\<rparr>)
      else (False, w))"

definition delete_if_equals :: "string \<Rightarrow> nat \<Rightarrow> dworld \<Rightarrow> dworld" where
  "delete_if_equals k tok w =
     (case live w k of
        None \<Rightarrow> w
      | Some l \<Rightarrow> if token l = tok then w\<lparr>leases := (leases w)(k := None)\<rparr> else w)"

definition reset_if_equals :: "string \<Rightarrow> nat \<Rightarrow> nat \<Rightarrow> dworld \<Rightarrow> dworld" where
  "reset_if_equals k tok ttl w =
     (case live w k of
        None \<Rightarrow> w
      | Some l \<Rightarrow>
          if token l = tok then w\<lparr>leases := (leases w)(k \<mapsto> l\<lparr>expiry := now w + ttl\<rparr>)\<rparr> else w)"

text \<open>
  Modelled from the spec: one attempt of the exclusive acquisition, which is not among the
  sources: a fresh token, then set-if-absent with the
  default lease \<open>ttl\<close>. \<open>Lock()\<close> repeats the attempt after a backoff until one succeeds
  or its wait is over; it returns nil exactly when an attempt of its succeeded, and the
  lock object then keeps the token.
\<close>

definition redis_try_Lock :: "nat \<Rightarrow> client \<Rightarrow> string \<Rightarrow> dworld \<Rightarrow> bool \<times> dworld" where
  "redis_try_Lock ttl c k w =
     (let tok = next_token w;
          (ok, w') = set_if_absent k tok ttl (w\<lparr>next_token := Suc tok\<rparr>)
      in if ok then (True, w'\<lparr>held := (held w')((c, k) \<mapsto> tok)\<rparr>) else (False, w'))"

text \<open>
  Modelled from the spec: exclusive release and \<open>Extend\<close> of the distributed backend,
  with the token the lock object keeps. Neither returns anything (as in the interfaces of
  the sources): a mismatch cannot be reported. Called on a lock object that holds no token
  (outside the contract) they do nothing.
\<close>

definition redis_Unlock :: "client \<Rightarrow> string \<Rightarrow> dworld \<Rightarrow> dworld" where
  "redis_Unlock c k w =
     (case held w (c, k) of
        None \<Rightarrow> w
      | Some tok \<Rightarrow> (delete_if_equals k tok w)\<lparr>held := (held w)((c, k) := None)\<rparr>)"

definition redis_Extend :: "nat \<Rightarrow> client \<Rightarrow> string \<Rightarrow> dworld \<Rightarrow> dworld" where
  "redis_Extend ttl c k w =
     (case held w (c, k) of
        None \<Rightarrow> w
      | Some tok \<Rightarrow> reset_if_equals k tok ttl w)"

text \<open>
  Modelled from the spec: shared acquisition of the distributed backend (one attempt:
  admitted when no exclusive lease is live) and shared release (the counter goes down,
  floored at zero).
\<close>

definition redis_try_RLock :: "string \<Rightarrow> dworld \<Rightarrow> bool \<times> dworld" where
  "redis_try_RLock k w =
     (if live w k = None then (True, w\<lparr>readers := (readers w)(k := Suc (readers w k))\<rparr>)
      else (False, w))"

definition redis_RUnlock :: "string \<Rightarrow> dworld \<Rightarrow> dworld" where
  "redis_RUnlock k w = w\<lparr>readers := (readers w)(k := readers w k - 1)\<rparr>"

text \<open>
  Modelled from the spec: what the clients and the clock do, one atomic operation of the
  store at a time; concurrent calls are the interleavings of their operations, that is,
  the event lists.
\<close>

datatype event =
    EvAttempt client string
  | EvUnlock client string
  | EvExtend client string
  | EvRAttempt string
  | EvRUnlock string
  | EvElapse nat

definition dstep :: "nat \<Rightarrow> event \<Rightarrow> dworld \<Rightarrow> dworld" where
  "dstep ttl ev w =
     (case ev of
        EvAttempt c k \<Rightarrow> snd (redis_try_Lock ttl c k w)
      | EvUnlock c k \<Rightarrow> redis_Unlock c k w
      | EvExtend c k \<Rightarrow> redis_Extend ttl c k w
      | EvRAttempt k \<Rightarrow> snd (redis_try_RLock k w)
      | EvRUnlock k \<Rightarrow> redis_RUnlock k w
      | EvElapse d \<Rightarrow> w\<lparr>now := now w + d\<rparr>)"

fun dexec :: "nat \<Rightarrow> event list \<Rightarrow> dworld \<Rightarrow> dworld" where
  "dexec ttl [] w = w"
| "dexec ttl (ev # evs) w = dexec ttl evs (dstep ttl ev w)"

definition dinit :: dworld where
  "dinit = \<lparr>leases = (\<lambda>k. None), readers = (\<lambda>k. 0), now = 0, next_token = 0, held = (\<lambda>x. None)\<rparr>"

text \<open>
  A client holds a live lease on a key when its lock object keeps the token that is
  stored, unexpired, under the key.
\<close>

definition live_holder :: "dworld \<Rightarrow> client \<Rightarrow> string \<Rightarrow> bool" where
  "live_holder w c k =
     (case held w (c, k) of
        None \<Rightarrow> False
      | Some tok \<Rightarrow> (case live w k of None \<Rightarrow> False | Some l \<Rightarrow> token l = tok))"

text \<open>
  Tokens are fresh: every token kept or stored was generated, and no two lock objects
  keep the same one.
\<close>

definition tokens_inv :: "dworld \<Rightarrow> bool" where
  "tokens_inv w =
     ((\<forall>x tok. held w x = Some tok \<longrightarrow> tok < next_token w)
      \<and> (\<forall>x y tok. held w x = Some tok \<and> held w y = Some tok \<longrightarrow> x = y))"

text \<open>The time that passes in an event list.\<close>

fun elapsed :: "event list \<Rightarrow> nat" where
  "elapsed [] = 0"
| "elapsed (EvElapse d # evs) = d + elapsed evs"
| "elapsed (_ # evs) = elapsed evs"

text \<open>
  Client \<open>c\<close> keeps the lease it acquired on \<open>k\<close> with token \<open>tok\<close>: its lock object
  keeps the token, the token is the stored one, the lease does not run out before the
  deadline, and the deadline has not come and is no later than a lease from now.
\<close>

definition lease_kept :: "nat \<Rightarrow> nat \<Rightarrow> client \<Rightarrow> string \<Rightarrow> nat \<Rightarrow> dworld \<Rightarrow> bool" where
  "lease_kept ttl deadline c k tok w =
     (tokens_inv w \<and> held w (c, k) = Some tok
      \<and> (case leases w k of None \<Rightarrow> False | Some l \<Rightarrow> token l = tok \<and> deadline \<le> expiry l)
      \<and> now w < deadline \<and> deadline \<le> now w + ttl)"

subsection \<open>The in-memory backend\<close>

text \<open>
  Modelled from the spec: the in-memory implementation is not among the sources. Each key
  has a native readers-writer mutex: a writer flag and a reader count, without expiry;
  \<open>Extend\<close> does nothing. \<open>Lock()\<close> waits (the world stays as it is) while the key has a
  writer or readers. \<open>mheld\<close> says which lock objects are between a \<open>Lock()\<close> that returned
  and their \<open>Unlock()\<close>; an \<open>Unlock()\<close> from another one is outside the contract and does
  nothing here.
\<close>

record mworld =
  writer :: "string \<Rightarrow> bool"
  mreaders :: "string \<Rightarrow> nat"
  mheld :: "client \<times> string \<Rightarrow> bool"

definition mem_Lock :: "client \<Rightarrow> string \<Rightarrow> mworld \<Rightarrow> mworld" where
  "mem_Lock c k w =
     (if writer w k \<or> mreaders w k \<noteq> 0 then w
      else w\<lparr>writer := (writer w)(k := True), mheld := (mheld w)((c, k) := True)\<rparr>)"

definition mem_Unlock :: "client \<Rightarrow> string \<Rightarrow> mworld \<Rightarrow> mworld" where
  "mem_Unlock c k w =
     (if mheld w (c, k)
      then w\<lparr>writer := (writer w)(k := False), mheld := (mheld w)((c, k) := False)\<rparr>
      else w)"

definition mem_RLock :: "string \<Rightarrow> mworld \<Rightarrow> mworld" where
  "mem_RLock k w = (if writer w k then w else w\<lparr>mreaders := (mreaders w)(k := Suc (mreaders w k))\<rparr>)"

definition mem_RUnlock :: "string \<Rightarrow> mworld \<Rightarrow> mworld" where
  "mem_RUnlock k w = w\<lparr>mreaders := (mreaders w)(k := mreaders w k - 1)\<rparr>"

definition mstep :: "event \<Rightarrow> mworld \<Rightarrow> mworld" where
  "mstep ev w =
     (case ev of
        EvAttempt c k \<Rightarrow> mem_Lock c k w
      | EvUnlock c k \<Rightarrow> mem_Unlock c k w
      | EvExtend c k \<Rightarrow> w
      | EvRAttempt k \<Rightarrow> mem_RLock k w
      | EvRUnlock k \<Rightarrow> mem_RUnlock k w
      | EvElapse d \<Rightarrow> w)"

fun mexec :: "event list \<Rightarrow> mworld \<Rightarrow> mworld" where
  "mexec [] w = w"
| "mexec (ev # evs) w = mexec evs (mstep ev w)"

definition minit :: mworld where
  "minit = \<lparr>writer = (\<lambda>k. False), mreaders = (\<lambda>k. 0), mheld = (\<lambda>x. False)\<rparr>"

definition mem_inv :: "mworld \<Rightarrow> bool" where
  "mem_inv w =
     ((\<forall>c k. mheld w (c, k) \<longrightarrow> writer w k)
      \<and> (\<forall>c c' k. mheld w (c, k) \<and> mheld w (c', k) \<longrightarrow> c = c'))"


subsection \<open>Event lists used in the evaluations\<close>

text \<open>
  With a lease of thirty time units: client 1 acquires the key, the lease runs out without
  renewal or release, and client 2 acquires the same key.
\<close>

definition evs_reclaimed :: "event list" where
  "evs_reclaimed = [EvAttempt 1 ''a/b'', EvElapse 30, EvAttempt 2 ''a/b'']"

text \<open>Client 1 holds the key and client 2 tries to acquire it.\<close>

definition evs_contended :: "event list" where
  "evs_contended = [EvAttempt 1 ''a/b'', EvElapse 3, EvAttempt 2 ''a/b'']"


text \<open>
  Client 1 holds the key; three time units later client 2 tries to acquire it, then
  calls \<open>Extend\<close> and \<open>Unlock\<close> on its own lock object, which holds nothing.
\<close>

definition evs_waiting :: "event list" where
  "evs_waiting = [EvElapse 3, EvAttempt 2 ''a/b'', EvExtend 2 ''a/b'', EvUnlock 2 ''a/b'']"


section \<open>Credentials: the framing round trip and malformed input\<close>

lemma Uint32_PutUint32: "Uint32 (PutUint32 v @ rest) = Some v"
proof -
  have "ucast (ucast v :: byte) OR push_bit 8 (ucast (ucast (drop_bit 8 v) :: byte))
          OR push_bit 16 (ucast (ucast (drop_bit 16 v) :: byte))
          OR push_bit 24 (ucast (ucast (drop_bit 24 v) :: byte)) = v"
  proof (rule bit_word_eqI)
    fix n assume n: "n < LENGTH(32)"
    consider "n < 8" | "8 \<le> n" "n < 16" | "16 \<le> n" "n < 24" | "24 \<le> n" by linarith
    then show "bit (ucast (ucast v :: byte) OR push_bit 8 (ucast (ucast (drop_bit 8 v) :: byte))
          OR push_bit 16 (ucast (ucast (drop_bit 16 v) :: byte))
          OR push_bit 24 (ucast (ucast (drop_bit 24 v) :: byte)) :: 32 word) n = bit v n"
      using n by cases (auto simp add: bit_simps)
  qed
  then show ?thesis by (simp add: PutUint32_def)
qed

lemma length_PutUint32: "length (PutUint32 v) = 4"
  by (simp add: PutUint32_def)

lemma unat_loginLen: "n < 2 ^ 32 \<Longrightarrow> unat (of_nat n :: 32 word) = n"
  by (simp add: unat_of_nat)

lemma HasPrefix_append: "HasPrefix (p @ s) p"
  by (simp add: HasPrefix_def)

lemma example_extern_laws: "box_opens example_extern \<and> base64_decodes example_extern"
proof -
  have "box_Open example_extern (box_Seal example_extern m n pk sk) n pk sk = Some m"
    if "length n = nonceLen" for m n pk sk
  proof -
    from that obtain x xs where "n = x # xs"
      by (cases n) (auto simp add: nonceLen_def)
    then show ?thesis by (simp add: example_extern_def)
  qed
  moreover have "DecodeString example_extern (EncodeToString example_extern b) = Some b" for b
    by (simp add: example_extern_def)
  ultimately show ?thesis by (simp add: box_opens_def base64_decodes_def)
qed

text \<open>
  Claim C9. For every login shorter than \<open>2^32\<close> bytes, every password, every non-nil key
  and every 24-byte nonce read at encryption time, \<open>EncryptCredentialsWithKey\<close> returns a
  string with a nil error, and base64-decoding that string and giving the bytes to
  \<open>DecryptCredentialsWithKey\<close> with the same key returns the login and the password with a
  nil error. The libraries are taken to be correct: \<open>box.Open\<close> opens what \<open>box.Seal\<close>
  sealed, base64 decoding inverts encoding.
\<close>

theorem credentials_roundtrip:
  assumes "box_opens ext" and "base64_decodes ext"
    and "length login < 2 ^ 32" and "length nonce = nonceLen"
  shows "\<exists>enc buf.
           EncryptCredentialsWithKey ext (Some nonce) (Some encryptorKey) login password = Returns (enc, None)
         \<and> DecodeString ext enc = Some buf
         \<and> DecryptCredentialsWithKey ext (Some encryptorKey) buf = Returns (login, password, None)"
proof -
  let ?creds = "PutUint32 (of_nat (length login)) @ login @ password"
  let ?sealed = "box_Seal ext ?creds nonce (publicKey encryptorKey) (privateKey encryptorKey)"
  let ?buf = "cipherHeader @ nonce @ ?sealed"
  have enc: "EncryptCredentialsWithKey ext (Some nonce) (Some encryptorKey) login password
       = Returns (EncodeToString ext ?buf, None)"
    by (simp add: EncryptCredentialsWithKey_def)
  have dec64: "DecodeString ext (EncodeToString ext ?buf) = Some ?buf"
    using assms(2) by (simp add: base64_decodes_def)
  have opn: "box_Open ext ?sealed nonce (publicKey encryptorKey) (privateKey encryptorKey) = Some ?creds"
    using assms(1,4) by (simp add: box_opens_def)
  have dec: "DecryptCredentialsWithKey ext (Some encryptorKey) ?buf = Returns (login, password, None)"
    using assms(3,4) opn
    by (simp add: DecryptCredentialsWithKey_def HasPrefix_append Uint32_PutUint32
        unat_loginLen plainPrefixLen_def length_PutUint32)
  show ?thesis using enc dec64 dec by blast
qed

theorem credentials_roundtrip_witness:
  "box_opens example_extern \<and> base64_decodes example_extern
   \<and> length [0x62, 0x6F, 0x62 :: byte] < 2 ^ 32 \<and> length (replicate 24 (7 :: byte)) = nonceLen
   \<and> (\<exists>enc buf.
         EncryptCredentialsWithKey example_extern (Some (replicate 24 7)) (Some example_key)
           [0x62, 0x6F, 0x62] [0x70, 0x77] = Returns (enc, None)
       \<and> DecodeString example_extern enc = Some buf
       \<and> DecryptCredentialsWithKey example_extern (Some example_key) buf
           = Returns ([0x62, 0x6F, 0x62], [0x70, 0x77], None))"
proof -
  have laws: "box_opens example_extern" "base64_decodes example_extern"
    using example_extern_laws by simp_all
  have len: "length [0x62, 0x6F, 0x62 :: byte] < 2 ^ 32" by simp
  have non: "length (replicate 24 (7 :: byte)) = nonceLen" by (simp add: nonceLen_def)
  show ?thesis
    using laws len non
      credentials_roundtrip [OF laws len non, of example_key "[0x70, 0x77]"]
    by simp
qed

text \<open>
  Claim C10. Whatever the key (nil included), an input that does not start with the four
  bytes \<open>nacl\<close>, or that has fewer than 24 bytes after them, makes
  \<open>DecryptCredentialsWithKey\<close> return the empty login, the empty password and
  \<open>ErrBadCredentials\<close>; in particular it returns, it does not panic.
\<close>

theorem decrypt_malformed_ErrBadCredentials:
  assumes "\<not> HasPrefix encryptedCreds cipherHeader
           \<or> length (drop (length cipherHeader) encryptedCreds) < nonceLen"
  shows "DecryptCredentialsWithKey ext decryptorKey encryptedCreds
           = Returns ([], [], Some ErrBadCredentials)"
  using assms by (auto simp add: DecryptCredentialsWithKey_def)

theorem decrypt_malformed_ErrBadCredentials_witness:
  "length (drop (length cipherHeader) [0x6E, 0x61, 0x63, 0x6C, 1, 2, 3]) < nonceLen
   \<and> DecryptCredentialsWithKey example_extern None [0x6E, 0x61, 0x63, 0x6C, 1, 2, 3]
       = Returns ([], [], Some ErrBadCredentials)
   \<and> \<not> HasPrefix [0x6E, 0x61, 0x63] cipherHeader
   \<and> DecryptCredentialsWithKey example_extern (Some example_key) [0x6E, 0x61, 0x63]
       = Returns ([], [], Some ErrBadCredentials)"
proof -
  have short: "length (drop (length cipherHeader) [0x6E, 0x61, 0x63, 0x6C, 1, 2, 3 :: byte]) < nonceLen"
    by (simp add: cipherHeader_def nonceLen_def)
  have nohdr: "\<not> HasPrefix [0x6E, 0x61, 0x63] cipherHeader"
    by (simp add: HasPrefix_def cipherHeader_def)
  show ?thesis
    using short nohdr
      decrypt_malformed_ErrBadCredentials [OF disjI2 [OF short], of example_extern None]
      decrypt_malformed_ErrBadCredentials [OF disjI1 [OF nohdr], of example_extern "Some example_key"]
    by simp
qed

section \<open>The long-operation wrapper: invariant\<close>

lemma run_append: "run L (xs @ ys) w = run L ys (run L xs w)"
  by (induction xs arbitrary: w) auto

lemma lock_inv_init: "lock_inv (init_world s d)"
  by (simp add: lock_inv_def init_world_def)

lemma lock_inv_fire: "lock_inv w \<Longrightarrow> lock_inv (w\<lparr>tickers := fire t (tickers w)\<rparr>)"
  by (auto simp add: lock_inv_def fire_def split: list.splits)

lemma lock_inv_caller: "lock_inv w \<Longrightarrow> lock_inv (caller_step L w)"
  apply (cases "caller w")
  apply (auto simp add: lock_inv_def caller_step_def longOperation_Unlock_step_def longOperation_Lock_def
      NewTicker_def Stop_def set_mu_def holdsC_def holdsR_def before_clear_def cleared_def Let_def
      split: list.splits option.splits prod.splits if_splits result.splits)
  done

lemma lock_inv_renewal: "lock_inv w \<Longrightarrow> lock_inv (renewal_step L i w)"
  apply (cases "goroutines w")
   apply (simp add: renewal_step_def)
  subgoal for g gs
    apply (cases gs)
     prefer 2 apply (simp add: lock_inv_def)
    apply (cases i)
     prefer 2 apply (simp add: renewal_step_def)
    apply (cases "pc g")
    apply (auto simp add: lock_inv_def renewal_step_def set_pc_def set_mu_def holdsC_def holdsR_def
        before_clear_def cleared_def Let_def split: option.splits if_splits)
    done
  done

lemma lock_inv_step: "lock_inv w \<Longrightarrow> lock_inv (step L a w)"
  by (cases a) (simp_all add: step_def lock_inv_caller lock_inv_renewal lock_inv_fire)

lemma lock_inv_run: "lock_inv w \<Longrightarrow> lock_inv (run L sched w)"
  by (induction sched arbitrary: w) (simp_all add: lock_inv_step)



lemma inv_U_stop: "lock_inv w \<Longrightarrow> caller w = U_stop \<Longrightarrow> tick (wrapper w) \<noteq> None"
  by (auto simp add: lock_inv_def before_clear_def cleared_def split: list.splits if_splits)

lemma inv_U_defer: "lock_inv w \<Longrightarrow> caller w = U_defer \<Longrightarrow> mu (wrapper w)"
  by (auto simp add: lock_inv_def holdsC_def split: list.splits if_splits)

lemma unlocking_caller_step:
  assumes "lock_inv w" and "unlocking (caller w)"
  shows "unlocking (caller (caller_step L w))
       \<and> (calls (caller_step L w) = calls w \<or> calls (caller_step L w) = calls w @ [CallUnlock])"
  using assms inv_U_stop [OF assms(1)] inv_U_defer [OF assms(1)]
  by (cases "caller w")
     (auto simp add: caller_step_def longOperation_Unlock_step_def unlocking_def set_mu_def)


lemma unlocking_renewal_step:
  assumes "lock_inv w" and "unlocking (caller w)"
  shows "caller (renewal_step L i w) = caller w \<and> calls (renewal_step L i w) = calls w"
proof (cases "goroutines w")
  case Nil
  then show ?thesis by (simp add: renewal_step_def)
next
  case (Cons g gs)
  then have gs: "gs = []" using assms(1) by (simp add: lock_inv_def split: list.splits)
  have ne: "pc g \<noteq> R_extend" using assms Cons gs
    by (auto simp add: lock_inv_def unlocking_def holdsC_def holdsR_def before_clear_def cleared_def
        split: if_splits)
  show ?thesis
  proof (cases i)
    case 0
    with Cons gs ne show ?thesis
      by (cases "pc g")
         (simp_all add: renewal_step_def set_pc_def set_mu_def Let_def split: option.splits)
  next
    case (Suc j)
    with Cons gs show ?thesis by (simp add: renewal_step_def)
  qed
qed

lemma unlocking_step:
  assumes "lock_inv w" and "unlocking (caller w)"
  shows "unlocking (caller (step L a w))
       \<and> (calls (step L a w) = calls w \<or> calls (step L a w) = calls w @ [CallUnlock])"
  using assms unlocking_caller_step [OF assms, of L] unlocking_renewal_step [OF assms, of L]
  by (cases a) (simp_all add: step_def)


lemma waiting_cycle:
  assumes "waiting i t w"
  shows "waiting i t (run L (renew_cycle i t) w)
       \<and> calls (run L (renew_cycle i t) w) = calls w @ [CallExtend]
       \<and> lock (wrapper (run L (renew_cycle i t) w)) = lk_Extend L (lock (wrapper w))"
  using assms
  by (simp add: waiting_def renew_cycle_def step_def fire_def renewal_step_def set_pc_def set_mu_def)


lemma unlocking_run:
  "lock_inv w \<Longrightarrow> unlocking (caller w) \<Longrightarrow>
     \<exists>rest. calls (run L sched w) = calls w @ rest \<and> CallExtend \<notin> set rest"
proof (induction sched arbitrary: w)
  case Nil
  then show ?case by simp
next
  case (Cons a sched)
  from unlocking_step [OF Cons.prems, of L a]
  have u: "unlocking (caller (step L a w))"
    and c: "calls (step L a w) = calls w \<or> calls (step L a w) = calls w @ [CallUnlock]"
    by simp_all
  from Cons.IH [OF lock_inv_step [OF Cons.prems(1)] u]
  obtain rest where r: "calls (run L sched (step L a w)) = calls (step L a w) @ rest"
    "CallExtend \<notin> set rest" by blast
  from c show ?case
  proof
    assume "calls (step L a w) = calls w"
    with r show ?thesis by auto
  next
    assume "calls (step L a w) = calls w @ [CallUnlock]"
    with r have "calls (run L (a # sched) w) = calls w @ (CallUnlock # rest)"
      "CallExtend \<notin> set (CallUnlock # rest)" by auto
    then show ?thesis by blast
  qed
qed

lemma cleared_tick:
  assumes "lock_inv w" and "cleared (caller w)"
  shows "tick (wrapper w) = None"
proof -
  have nb: "\<not> before_clear (caller w)"
    using assms(2) by (auto simp add: cleared_def before_clear_def)
  show ?thesis
  proof (cases "goroutines w")
    case Nil
    with assms(1) show ?thesis by (simp add: lock_inv_def)
  next
    case (Cons g gs)
    with assms(1) nb show ?thesis by (cases gs) (simp_all add: lock_inv_def)
  qed
qed

lemma sdiv_3_pos: "3 \<le> (d::int) \<Longrightarrow> 0 < d sdiv 3"
  by (simp add: signed_divide_int_def sgn_if pos_imp_zdiv_pos_iff)

lemma stuck_run: "(\<And>a. step L a w = w) \<Longrightarrow> run L sched w = w"
  by (induction sched) simp_all

lemma waiting_cycles:
  assumes "waiting i t w"
  shows "waiting i t (run L (concat (replicate n (renew_cycle i t))) w)
       \<and> calls (run L (concat (replicate n (renew_cycle i t))) w) = calls w @ replicate n CallExtend
       \<and> lock (wrapper (run L (concat (replicate n (renew_cycle i t))) w)) = (lk_Extend L ^^ n) (lock (wrapper w))"
  using assms
proof (induction n arbitrary: w)
  case 0
  then show ?case by simp
next
  case (Suc n)
  let ?w1 = "run L (renew_cycle i t) w"
  from waiting_cycle [OF Suc.prems, of L]
  have 1: "waiting i t ?w1"
    and 2: "calls ?w1 = calls w @ [CallExtend]"
    and 3: "lock (wrapper ?w1) = lk_Extend L (lock (wrapper w))"
    by simp_all
  have split: "run L (concat (replicate (Suc n) (renew_cycle i t))) w
      = run L (concat (replicate n (renew_cycle i t))) ?w1"
    by (simp add: run_append)
  have fp: "(lk_Extend L ^^ Suc n) x = (lk_Extend L ^^ n) (lk_Extend L x)" for x
    by (simp add: funpow_swap1)
  from Suc.IH [OF 1] show ?case
    unfolding split fp 2 3 by simp
qed

lemma Lock_success:
  assumes "lk_Lock L (lock (wrapper w)) = (None, s')" and "3 \<le> timeout (wrapper w)"
  shows "longOperation_Lock L w =
          (Returns None,
           w\<lparr>wrapper := (wrapper w)\<lparr>lock := s', tick := Some (length (tickers w))\<rparr>,
             calls := calls w @ [CallLock],
             tickers := tickers w @ [\<lparr>period = timeout (wrapper w) sdiv 3, stopped = False, C = False\<rparr>],
             goroutines := goroutines w @ [\<lparr>pc = R_lock1, ch = None\<rparr>]\<rparr>)"
  using assms sdiv_3_pos [OF assms(2)]
  by (simp add: longOperation_Lock_def NewTicker_def)

lemma waiting_start:
  assumes "i < length (goroutines w)" and "goroutines w ! i = \<lparr>pc = R_lock1, ch = None\<rparr>"
    and "t < length (tickers w)" and "\<not> stopped (tickers w ! t)" and "\<not> C (tickers w ! t)"
    and "tick (wrapper w) = Some t" and "\<not> mu (wrapper w)"
  shows "waiting i t (run L (renew_start i) w)
       \<and> calls (run L (renew_start i) w) = calls w
       \<and> lock (wrapper (run L (renew_start i) w)) = lock (wrapper w)"
  using assms
  by (simp add: waiting_def renew_start_def step_def renewal_step_def set_pc_def set_mu_def)

text \<open>
  \<open>Unlock()\<close> running alone on a held wrapper: after lines 83 to 87 the ticker is stopped
  and \<open>l.tick\<close> is nil while the wrapped \<open>Unlock()\<close> has not been called yet; at the end
  it has been called once and the mutex is free again.
\<close>

lemma Unlock_stops_then_releases:
  assumes "caller w = U_lock" and "\<not> mu (wrapper w)" and "tick (wrapper w) = Some t"
  shows "run L [Caller, Caller, Caller, Caller] w
       = w\<lparr>wrapper := (wrapper w)\<lparr>mu := True, tick := None\<rparr>,
           tickers := Stop t (tickers w), caller := U_inner\<rparr>"
    and "run L [Caller, Caller, Caller, Caller, Caller, Caller] w
       = w\<lparr>wrapper := (wrapper w)\<lparr>lock := lk_Unlock L (lock (wrapper w)), mu := False, tick := None\<rparr>,
           tickers := Stop t (tickers w), calls := calls w @ [CallUnlock], caller := C_done\<rparr>"
  using assms
  by (simp_all add: step_def caller_step_def longOperation_Unlock_step_def set_mu_def)

section \<open>The key namer and the backends: lemmas\<close>

lemma takeWhile_slash:
  "CHR ''/'' \<notin> set t \<Longrightarrow> takeWhile (\<lambda>c. c \<noteq> CHR ''/'') (t @ CHR ''/'' # n) = t"
  by (induction t) auto

lemma key_no_slash:
  assumes "CHR ''/'' \<notin> set t1" and "CHR ''/'' \<notin> set t2" and "key t1 n1 = key t2 n2"
  shows "t1 = t2 \<and> n1 = n2"
proof -
  from assms(3) have e: "t1 @ CHR ''/'' # n1 = t2 @ CHR ''/'' # n2" by (simp add: key_def)
  then have "takeWhile (\<lambda>c. c \<noteq> CHR ''/'') (t1 @ CHR ''/'' # n1)
           = takeWhile (\<lambda>c. c \<noteq> CHR ''/'') (t2 @ CHR ''/'' # n2)" by simp
  then have "t1 = t2" using assms(1,2) by (simp add: takeWhile_slash)
  with e show ?thesis by simp
qed

lemmas backend_defs =
  dstep_def redis_try_Lock_def redis_Unlock_def redis_Extend_def redis_try_RLock_def
  redis_RUnlock_def set_if_absent_def delete_if_equals_def reset_if_equals_def live_def

lemma tokens_inv_dinit: "tokens_inv dinit"
  by (simp add: tokens_inv_def dinit_def)

lemma tokens_inv_try_Lock: "tokens_inv w \<Longrightarrow> tokens_inv (snd (redis_try_Lock ttl c k w))"
  unfolding tokens_inv_def redis_try_Lock_def set_if_absent_def Let_def
  by (auto simp add: less_Suc_eq split: if_splits)

lemma tokens_inv_Unlock: "tokens_inv w \<Longrightarrow> tokens_inv (redis_Unlock c k w)"
  unfolding tokens_inv_def redis_Unlock_def delete_if_equals_def
  by (auto split: option.splits if_splits)

lemma tokens_inv_Extend: "tokens_inv w \<Longrightarrow> tokens_inv (redis_Extend ttl c k w)"
  unfolding tokens_inv_def redis_Extend_def reset_if_equals_def
  by (auto split: option.splits if_splits)

lemma tokens_inv_dstep: "tokens_inv w \<Longrightarrow> tokens_inv (dstep ttl ev w)"
proof (cases ev)
  case (EvAttempt c k)
  then show "tokens_inv w \<Longrightarrow> ?thesis" by (simp add: dstep_def tokens_inv_try_Lock)
next
  case (EvUnlock c k)
  then show "tokens_inv w \<Longrightarrow> ?thesis" by (simp add: dstep_def tokens_inv_Unlock)
next
  case (EvExtend c k)
  then show "tokens_inv w \<Longrightarrow> ?thesis" by (simp add: dstep_def tokens_inv_Extend)
next
  case (EvRAttempt k)
  then show "tokens_inv w \<Longrightarrow> ?thesis"
    by (simp add: dstep_def redis_try_RLock_def tokens_inv_def)
next
  case (EvRUnlock k)
  then show "tokens_inv w \<Longrightarrow> ?thesis"
    by (simp add: dstep_def redis_RUnlock_def tokens_inv_def)
next
  case (EvElapse d)
  then show "tokens_inv w \<Longrightarrow> ?thesis" by (simp add: dstep_def tokens_inv_def)
qed

lemma tokens_inv_dexec: "tokens_inv w \<Longrightarrow> tokens_inv (dexec ttl evs w)"
  by (induction evs arbitrary: w) (simp_all add: tokens_inv_dstep)

lemma live_holder_unique:
  assumes "tokens_inv w" and "live_holder w c1 k" and "live_holder w c2 k"
  shows "c1 = c2"
proof -
  from assms(2) obtain t1 l where 1: "held w (c1, k) = Some t1" "live w k = Some l" "token l = t1"
    by (auto simp add: live_holder_def split: option.splits)
  from assms(3) 1(2) have 2: "held w (c2, k) = Some (token l)"
    by (auto simp add: live_holder_def split: option.splits)
  from assms(1) 1(1,3) 2 have "(c1, k) = (c2, k)"
    unfolding tokens_inv_def by blast
  then show ?thesis by simp
qed

lemma try_Lock_fails_while_live:
  "live w k \<noteq> None \<Longrightarrow> redis_try_Lock ttl c k w = (False, w\<lparr>next_token := Suc (next_token w)\<rparr>)"
  by (auto simp add: redis_try_Lock_def set_if_absent_def live_def split: option.splits)

lemma mem_inv_minit: "mem_inv minit"
  by (simp add: mem_inv_def minit_def)

lemma mem_inv_mstep: "mem_inv w \<Longrightarrow> mem_inv (mstep ev w)"
  unfolding mem_inv_def
  by (cases ev)
     (auto simp add: mstep_def mem_Lock_def mem_Unlock_def mem_RLock_def mem_RUnlock_def
       split: if_splits, blast+)

lemma mem_inv_mexec: "mem_inv w \<Longrightarrow> mem_inv (mexec evs w)"
  by (induction evs arbitrary: w) (simp_all add: mem_inv_mstep)

lemma lease_kept_live: "lease_kept ttl deadline c k tok w \<Longrightarrow> live w k \<noteq> None"
  by (auto simp add: lease_kept_def live_def split: option.splits)

lemma now_dstep: "now (dstep ttl ev w) = now w + elapsed [ev]"
  by (cases ev)
     (auto simp add: backend_defs Let_def split: option.splits prod.splits if_splits)

lemma lease_kept_dstep:
  assumes "lease_kept ttl deadline c k tok w" and "ev \<noteq> EvUnlock c k"
    and "now w + elapsed [ev] < deadline"
  shows "lease_kept ttl deadline c k tok (dstep ttl ev w)"
proof -
  have inv: "tokens_inv (dstep ttl ev w)"
    using assms(1) by (simp add: lease_kept_def tokens_inv_dstep)
  from assms(1) obtain l where l: "leases w k = Some l" "token l = tok" "deadline \<le> expiry l"
    and h: "held w (c, k) = Some tok" and t: "now w < deadline" "deadline \<le> now w + ttl"
    and ti: "tokens_inv w"
    by (auto simp add: lease_kept_def split: option.splits)
  have lv: "live w k = Some l" using l t by (simp add: live_def)
  have other: "held w (c', k) = Some tok' \<Longrightarrow> c' \<noteq> c \<Longrightarrow> tok' \<noteq> tok" for c' tok'
    using ti h unfolding tokens_inv_def by blast
  have "held (dstep ttl ev w) (c, k) = Some tok
      \<and> (case leases (dstep ttl ev w) k of None \<Rightarrow> False
          | Some l \<Rightarrow> token l = tok \<and> deadline \<le> expiry l)
      \<and> now (dstep ttl ev w) < deadline \<and> deadline \<le> now (dstep ttl ev w) + ttl"
  proof (cases ev)
    case (EvAttempt c' k')
    have "live (w\<lparr>next_token := n\<rparr>) k = Some l" for n
      using l t by (simp add: live_def)
    with EvAttempt show ?thesis using l h t
      by (auto simp add: dstep_def redis_try_Lock_def set_if_absent_def Let_def)
  next
    case (EvUnlock c' k')
    then show ?thesis using l h t lv assms(2) other [of c']
      by (auto simp add: dstep_def redis_Unlock_def delete_if_equals_def live_def
          split: option.splits)
  next
    case (EvExtend c' k')
    then show ?thesis using l h t lv
      by (auto simp add: dstep_def redis_Extend_def reset_if_equals_def live_def
          split: option.splits)
  next
    case (EvRAttempt k')
    then show ?thesis using l h t by (auto simp add: dstep_def redis_try_RLock_def)
  next
    case (EvRUnlock k')
    then show ?thesis using l h t by (auto simp add: dstep_def redis_RUnlock_def)
  next
    case (EvElapse d)
    then show ?thesis using l h t assms(3) by (auto simp add: dstep_def)
  qed
  with inv show ?thesis by (simp add: lease_kept_def)
qed

lemma elapsed_Cons: "elapsed (ev # evs) = elapsed [ev] + elapsed evs"
  by (cases ev) simp_all

lemma lease_kept_dexec:
  assumes "lease_kept ttl deadline c k tok w" and "EvUnlock c k \<notin> set evs"
    and "now w + elapsed evs < deadline"
  shows "lease_kept ttl deadline c k tok (dexec ttl evs w)"
  using assms
proof (induction evs arbitrary: w)
  case Nil
  then show ?case by simp
next
  case (Cons ev evs)
  have e: "elapsed (ev # evs) = elapsed [ev] + elapsed evs" by (rule elapsed_Cons)
  have 1: "lease_kept ttl deadline c k tok (dstep ttl ev w)"
    using Cons.prems e by (intro lease_kept_dstep) auto
  have 2: "now (dstep ttl ev w) + elapsed evs < deadline"
    using Cons.prems(3) e by (simp add: now_dstep)
  from Cons.IH [OF 1 _ 2] Cons.prems(2) show ?case by simp
qed

lemma try_Lock_success:
  assumes "tokens_inv w" and "redis_try_Lock ttl c k w = (True, w')" and "0 < ttl"
  shows "lease_kept ttl (now w + ttl) c k (next_token w) w'"
proof -
  from assms(2) have w': "w' = w\<lparr>next_token := Suc (next_token w),
        leases := (leases w)(k \<mapsto> \<lparr>token = next_token w, expiry = now w + ttl\<rparr>),
        held := (held w)((c, k) \<mapsto> next_token w)\<rparr>"
    by (auto simp add: redis_try_Lock_def set_if_absent_def Let_def split: if_splits)
  have "tokens_inv w'"
    using tokens_inv_try_Lock [OF assms(1), of ttl c k] assms(2) by simp
  then show ?thesis using assms(3) by (simp add: lease_kept_def w')
qed

lemma second_Lock_fails:
  assumes "redis_try_Lock ttl c1 k (dexec ttl evs0 dinit) = (True, w1)"
    and "EvUnlock c1 k \<notin> set evs" and "elapsed evs < ttl"
  shows "\<not> fst (redis_try_Lock ttl c2 k (dexec ttl evs w1))"
proof -
  let ?w0 = "dexec ttl evs0 dinit"
  have inv: "tokens_inv ?w0" by (rule tokens_inv_dexec [OF tokens_inv_dinit])
  have pos: "0 < ttl" using assms(3) by simp
  have k1: "lease_kept ttl (now ?w0 + ttl) c1 k (next_token ?w0) w1"
    by (rule try_Lock_success [OF inv assms(1) pos])
  have n: "now w1 = now ?w0"
    using assms(1) by (auto simp add: redis_try_Lock_def set_if_absent_def Let_def split: if_splits)
  have "lease_kept ttl (now ?w0 + ttl) c1 k (next_token ?w0) (dexec ttl evs w1)"
    using assms(2,3) n by (intro lease_kept_dexec [OF k1]) auto
  then have "live (dexec ttl evs w1) k \<noteq> None" by (rule lease_kept_live)
  then show ?thesis by (simp add: try_Lock_fails_while_live)
qed

lemma mheld_kept_mstep:
  assumes "mem_inv w" and "mheld w (c, k)" and "ev \<noteq> EvUnlock c k"
  shows "mheld (mstep ev w) (c, k)"
proof -
  have other: "\<not> mheld w (c', k)" if "c' \<noteq> c" for c'
    using assms(1,2) that unfolding mem_inv_def by blast
  have w: "writer w k" using assms(1,2) unfolding mem_inv_def by blast
  show ?thesis using assms(2,3) other w
    by (cases ev)
       (auto simp add: mstep_def mem_Lock_def mem_Unlock_def mem_RLock_def mem_RUnlock_def)
qed

lemma mheld_kept_mexec:
  assumes "mem_inv w" and "mheld w (c, k)" and "EvUnlock c k \<notin> set evs"
  shows "mheld (mexec evs w) (c, k)"
  using assms
proof (induction evs arbitrary: w)
  case Nil
  then show ?case by simp
next
  case (Cons ev evs)
  have 1: "mheld (mstep ev w) (c, k)"
    using Cons.prems by (intro mheld_kept_mstep) auto
  from Cons.IH [OF mem_inv_mstep [OF Cons.prems(1)] 1] Cons.prems(3) show ?case by simp
qed

lemma mem_second_Lock_waits:
  assumes "\<not> writer (mexec evs0 minit) k" and "mreaders (mexec evs0 minit) k = 0"
    and "EvUnlock c1 k \<notin> set evs"
  shows "mheld (mem_Lock c1 k (mexec evs0 minit)) (c1, k)
       \<and> mem_Lock c2 k (mexec evs (mem_Lock c1 k (mexec evs0 minit)))
           = mexec evs (mem_Lock c1 k (mexec evs0 minit))"
proof -
  let ?w1 = "mem_Lock c1 k (mexec evs0 minit)"
  have "mem_inv (mexec (evs0 @ [EvAttempt c1 k]) minit)"
    by (rule mem_inv_mexec [OF mem_inv_minit])
  moreover have mexec_append: "mexec (xs @ ys) w = mexec ys (mexec xs w)" for xs ys w
    by (induction xs arbitrary: w) simp_all
  ultimately have inv: "mem_inv ?w1" by (simp add: mexec_append mstep_def)
  have h: "mheld ?w1 (c1, k)" using assms(1,2) by (simp add: mem_Lock_def)
  have "mheld (mexec evs ?w1) (c1, k)"
    by (rule mheld_kept_mexec [OF inv h assms(3)])
  moreover have "mem_inv (mexec evs ?w1)" by (rule mem_inv_mexec [OF inv])
  ultimately have "writer (mexec evs ?w1) k" unfolding mem_inv_def by blast
  then show ?thesis using h by (simp add: mem_Lock_def)
qed

lemma live_holder_kept:
  assumes "tokens_inv w" and "live_holder w c k" and "ev \<noteq> EvUnlock c k"
    and "\<forall>d. ev \<noteq> EvElapse d" and "0 < ttl"
  shows "live_holder (dstep ttl ev w) c k"
proof -
  from assms(2) obtain tok l where h: "held w (c, k) = Some tok"
    and lv: "live w k = Some l" and t: "token l = tok"
    by (auto simp add: live_holder_def split: option.splits)
  from lv have ls: "leases w k = Some l" and n: "now w < expiry l"
    by (auto simp add: live_def split: option.splits if_splits)
  have other: "held w (c', k) = Some tok' \<Longrightarrow> c' \<noteq> c \<Longrightarrow> tok' \<noteq> tok" for c' tok'
    using assms(1) h unfolding tokens_inv_def by blast
  show ?thesis
  proof (cases ev)
    case (EvAttempt c' k')
    have "live (w\<lparr>next_token := m\<rparr>) k = Some l" for m
      using ls n by (simp add: live_def)
    with EvAttempt show ?thesis using h ls n t
      by (auto simp add: live_holder_def live_def dstep_def redis_try_Lock_def set_if_absent_def Let_def)
  next
    case (EvUnlock c' k')
    then show ?thesis using h ls n t lv assms(3) other [of c']
      by (auto simp add: live_holder_def dstep_def redis_Unlock_def delete_if_equals_def live_def
          split: option.splits)
  next
    case (EvExtend c' k')
    then show ?thesis using h ls n t lv assms(5)
      by (auto simp add: live_holder_def dstep_def redis_Extend_def reset_if_equals_def live_def
          split: option.splits)
  next
    case (EvRAttempt k')
    then show ?thesis using h ls n t
      by (auto simp add: live_holder_def live_def dstep_def redis_try_RLock_def)
  next
    case (EvRUnlock k')
    then show ?thesis using h ls n t
      by (auto simp add: live_holder_def live_def dstep_def redis_RUnlock_def)
  next
    case (EvElapse d)
    then show ?thesis using assms(4) by simp
  qed
qed

section \<open>The long-operation wrapper: ticks and \<open>Extend\<close> calls\<close>

lemma lock_inv_one:
  assumes "lock_inv w" and "goroutines w = [g]"
  shows "before_clear (caller w) \<or> cleared (caller w)"
    and "tick (wrapper w) = (if before_clear (caller w) then Some 0 else None)"
    and "mu (wrapper w) = (holdsC (caller w) \<or> holdsR (pc g))"
    and "\<not> (holdsC (caller w) \<and> holdsR (pc g))"
    and "pc g \<in> {R_chan, R_unlock1, R_extend, R_unlock2} \<longrightarrow> tick (wrapper w) \<noteq> None"
    and "pc g \<noteq> R_panic"
proof -
  from assms(1) have all:
    "length (tickers w) = 1
     \<and> (before_clear (caller w) \<or> cleared (caller w))
     \<and> tick (wrapper w) = (if before_clear (caller w) then Some 0 else None)
     \<and> mu (wrapper w) = (holdsC (caller w) \<or> holdsR (pc g))
     \<and> \<not> (holdsC (caller w) \<and> holdsR (pc g))
     \<and> (pc g \<in> {R_chan, R_unlock1, R_extend, R_unlock2} \<longrightarrow> tick (wrapper w) \<noteq> None)
     \<and> pc g \<noteq> R_panic"
    unfolding lock_inv_def assms(2) list.case .
  from all show "before_clear (caller w) \<or> cleared (caller w)" by blast
  from all show "tick (wrapper w) = (if before_clear (caller w) then Some 0 else None)" by blast
  from all show "mu (wrapper w) = (holdsC (caller w) \<or> holdsR (pc g))" by blast
  from all show "\<not> (holdsC (caller w) \<and> holdsR (pc g))" by blast
  from all show "pc g \<in> {R_chan, R_unlock1, R_extend, R_unlock2} \<longrightarrow> tick (wrapper w) \<noteq> None" by blast
  from all show "pc g \<noteq> R_panic" by blast
qed

lemma renew_inv_fire:
  assumes "renew_inv d r w"
  shows "renew_inv d r (w\<lparr>tickers := fire t (tickers w)\<rparr>)"
proof -
  from assms obtain g tk where gt: "goroutines w = [g]" "tickers w = [tk]"
    and rest: "period tk = d sdiv 3"
      "stopped tk = (caller w \<in> {U_clear, U_inner, U_defer, C_done})"
      "pc g = R_unlock1 \<or> pc g = R_recv \<longrightarrow> ch g = Some 0"
      "pc g = R_defer \<or> pc g = R_exit \<longrightarrow> tick (wrapper w) = None"
      "r = extends w + inflight (pc g) \<or> r = extends w + 1 \<and> (pc g = R_defer \<or> pc g = R_exit)"
    unfolding renew_inv_def by blast
  show ?thesis
  proof (cases "t < length (tickers w) \<and> \<not> stopped (tickers w ! t)")
    case True
    then have t0: "t = 0" using gt by simp
    show ?thesis unfolding renew_inv_def
      apply (rule exI [of _ g], rule exI [of _ "tk\<lparr>C := True\<rparr>"])
      using True gt rest t0 by (simp add: fire_def extends_def)
  next
    case False
    then have "fire t (tickers w) = tickers w" by (auto simp add: fire_def)
    then show ?thesis using assms by (simp add: renew_inv_def extends_def)
  qed
qed

lemma renew_inv_caller:
  assumes "lock_inv w" and "renew_inv d r w"
  shows "renew_inv d r (caller_step L w)"
proof -
  from assms(2) obtain g tk where gt: "goroutines w = [g]" "tickers w = [tk]"
    and rest: "period tk = d sdiv 3"
      "stopped tk = (caller w \<in> {U_clear, U_inner, U_defer, C_done})"
      "pc g = R_unlock1 \<or> pc g = R_recv \<longrightarrow> ch g = Some 0"
      "pc g = R_defer \<or> pc g = R_exit \<longrightarrow> tick (wrapper w) = None"
      "r = extends w + inflight (pc g) \<or> r = extends w + 1 \<and> (pc g = R_defer \<or> pc g = R_exit)"
    unfolding renew_inv_def by blast
  note li = lock_inv_one [OF assms(1) gt(1)]
  show ?thesis
  proof (cases "caller w")
    case C_init
    then show ?thesis using li(1) by (simp add: before_clear_def cleared_def)
  next
    case C_failed
    then show ?thesis using li(1) by (simp add: before_clear_def cleared_def)
  next
    case C_panic
    then show ?thesis using li(1) by (simp add: before_clear_def cleared_def)
  next
    case C_held
    then show ?thesis using gt rest
      by (simp add: renew_inv_def caller_step_def extends_def)
  next
    case U_lock
    then show ?thesis using gt rest
      by (simp add: renew_inv_def caller_step_def longOperation_Unlock_step_def set_mu_def extends_def)
  next
    case U_test
    then show ?thesis using gt rest li(2)
      by (simp add: renew_inv_def caller_step_def longOperation_Unlock_step_def extends_def
          before_clear_def)
  next
    case U_stop
    then show ?thesis using gt rest li(2)
      by (simp add: renew_inv_def caller_step_def longOperation_Unlock_step_def extends_def
          before_clear_def Stop_def)
  next
    case U_clear
    then show ?thesis using gt rest
      by (simp add: renew_inv_def caller_step_def longOperation_Unlock_step_def extends_def)
  next
    case U_inner
    then show ?thesis using gt rest
      by (simp add: renew_inv_def caller_step_def longOperation_Unlock_step_def extends_def)
  next
    case U_defer
    then show ?thesis using gt rest li(3)
      by (simp add: renew_inv_def caller_step_def longOperation_Unlock_step_def extends_def
          set_mu_def holdsC_def)
  next
    case C_done
    then show ?thesis using gt rest
      by (simp add: renew_inv_def caller_step_def extends_def)
  qed
qed

lemma renew_inv_renewal:
  assumes "lock_inv w" and "renew_inv d r w"
  shows "renew_inv d (r + (if takes_tick (Task i) w then 1 else 0)) (renewal_step L i w)"
proof -
  from assms(2) obtain g tk where gt: "goroutines w = [g]" "tickers w = [tk]"
    and rest: "period tk = d sdiv 3"
      "stopped tk = (caller w \<in> {U_clear, U_inner, U_defer, C_done})"
      "pc g = R_unlock1 \<or> pc g = R_recv \<longrightarrow> ch g = Some 0"
      "pc g = R_defer \<or> pc g = R_exit \<longrightarrow> tick (wrapper w) = None"
    and cnt: "r = extends w + inflight (pc g) \<or> r = extends w + 1 \<and> (pc g = R_defer \<or> pc g = R_exit)"
    unfolding renew_inv_def by blast
  note li = lock_inv_one [OF assms(1) gt(1)]
  show ?thesis
  proof (cases i)
    case (Suc j)
    then show ?thesis using assms(2) gt by (simp add: renewal_step_def takes_tick_def)
  next
    case 0
    show ?thesis
    proof (cases "pc g")
      case R_lock1
      then show ?thesis using 0 gt rest cnt
        by (simp add: renew_inv_def renewal_step_def takes_tick_def set_pc_def set_mu_def
            extends_def inflight_def)
    next
      case R_test1
      then show ?thesis using 0 gt rest cnt
        by (auto simp add: renew_inv_def renewal_step_def takes_tick_def set_pc_def
            extends_def inflight_def)
    next
      case R_chan
      then show ?thesis using 0 gt rest cnt li(2,5)
        by (auto simp add: renew_inv_def renewal_step_def takes_tick_def
            extends_def inflight_def split: if_splits)
    next
      case R_unlock1
      then show ?thesis using 0 gt rest cnt li(3)
        by (simp add: renew_inv_def renewal_step_def takes_tick_def set_pc_def set_mu_def
            extends_def inflight_def holdsR_def)
    next
      case R_recv
      then show ?thesis using 0 gt rest cnt
        by (auto simp add: renew_inv_def renewal_step_def takes_tick_def set_pc_def
            extends_def inflight_def)
    next
      case R_lock2
      then show ?thesis using 0 gt rest cnt
        by (simp add: renew_inv_def renewal_step_def takes_tick_def set_pc_def set_mu_def
            extends_def inflight_def)
    next
      case R_test2
      then show ?thesis using 0 gt rest cnt
        by (auto simp add: renew_inv_def renewal_step_def takes_tick_def set_pc_def
            extends_def inflight_def)
    next
      case R_extend
      then show ?thesis using 0 gt rest cnt
        by (simp add: renew_inv_def renewal_step_def takes_tick_def set_pc_def
            extends_def inflight_def)
    next
      case R_unlock2
      then show ?thesis using 0 gt rest cnt li(3)
        by (simp add: renew_inv_def renewal_step_def takes_tick_def set_pc_def set_mu_def
            extends_def inflight_def holdsR_def)
    next
      case R_defer
      then show ?thesis using 0 gt rest cnt li(3)
        by (auto simp add: renew_inv_def renewal_step_def takes_tick_def set_pc_def set_mu_def
            extends_def inflight_def holdsR_def)
    next
      case R_exit
      then show ?thesis using 0 gt rest cnt
        by (auto simp add: renew_inv_def renewal_step_def takes_tick_def
            extends_def inflight_def)
    next
      case R_panic
      then show ?thesis using li(6) by simp
    qed
  qed
qed

lemma renew_inv_step:
  assumes "lock_inv w" and "renew_inv d r w"
  shows "renew_inv d (r + (if takes_tick a w then 1 else 0)) (step L a w)"
proof (cases a)
  case Caller
  then show ?thesis using renew_inv_caller [OF assms, of L]
    by (simp add: step_def takes_tick_def)
next
  case (Task i)
  then show ?thesis using renew_inv_renewal [OF assms, of i L]
    by (simp add: step_def)
next
  case (Fire t)
  then show ?thesis using renew_inv_fire [OF assms(2), of t]
    by (simp add: step_def takes_tick_def)
qed

lemma renew_inv_run:
  assumes "lock_inv w" and "renew_inv d r w"
  shows "renew_inv d (r + received L sched w) (run L sched w)"
  using assms
proof (induction sched arbitrary: w r)
  case Nil
  then show ?case by simp
next
  case (Cons a sched)
  have 1: "lock_inv (step L a w)" by (rule lock_inv_step [OF Cons.prems(1)])
  have 2: "renew_inv d (r + (if takes_tick a w then 1 else 0)) (step L a w)"
    by (rule renew_inv_step [OF Cons.prems])
  from Cons.IH [OF 1 2] show ?case by (simp add: add.assoc)
qed

lemma locked_world_eq:
  assumes "lk_Lock L s = (None, s')" and "3 \<le> d"
  shows "locked_world L s d =
     \<lparr>wrapper = \<lparr>lock = s', mu = False, tick = Some 0, timeout = d\<rparr>,
      tickers = [\<lparr>period = d sdiv 3, stopped = False, C = False\<rparr>],
      goroutines = [\<lparr>pc = R_lock1, ch = None\<rparr>], calls = [CallLock], caller = C_held\<rparr>"
  using assms sdiv_3_pos [OF assms(2)]
  by (simp add: locked_world_def step_def caller_step_def longOperation_Lock_def NewTicker_def
      init_world_def)

lemma locked_world_inv:
  assumes "lk_Lock L s = (None, s')" and "3 \<le> d"
  shows "lock_inv (locked_world L s d)" and "renew_inv d 0 (locked_world L s d)"
proof -
  show "lock_inv (locked_world L s d)"
    unfolding locked_world_def by (rule lock_inv_step [OF lock_inv_init])
  show "renew_inv d 0 (locked_world L s d)"
    unfolding locked_world_eq [OF assms]
    by (simp add: renew_inv_def extends_def inflight_def)
qed

lemma recv_cycle:
  assumes "i < length (goroutines w)" and "goroutines w ! i = \<lparr>pc = R_recv, ch = Some t\<rparr>"
    and "t < length (tickers w)" and "\<not> stopped (tickers w ! t)"
    and "tick (wrapper w) = Some t" and "\<not> mu (wrapper w)"
  shows "calls (run L (renew_cycle i t) w) = calls w @ [CallExtend]
       \<and> lock (wrapper (run L (renew_cycle i t) w)) = lk_Extend L (lock (wrapper w))
       \<and> pc (goroutines (run L (renew_cycle i t) w) ! i) = R_recv"
  using assms
  by (simp add: renew_cycle_def step_def fire_def renewal_step_def set_pc_def set_mu_def)

section \<open>The lock package: the claims\<close>

text \<open>The definitions unfolded when a schedule is evaluated on the counting locker.\<close>

lemmas eval_defs =
  init_world_def counting_locker_def thirty_seconds_def step_def
  caller_step_def longOperation_Lock_def longOperation_Unlock_step_def renewal_step_def
  NewTicker_def Stop_def fire_def set_pc_def set_mu_def signed_divide_int_def

text \<open>
  Claim C5. \<open>New\<close> returns the in-memory implementation exactly when the client is nil,
  and the distributed implementation, built on the client, exactly when it is not.
\<close>

theorem New_selects_backend:
  "(New client = InMemoryLockGetter) = (client = None)
   \<and> New (Some c) = RedisLockGetter c
   \<and> (\<exists>c'. New client = RedisLockGetter c') = (client \<noteq> None)"
  by (cases client) (simp_all add: New_def NewInMemory_def NewRedisLockGetter_def)

text \<open>
  Claim C4. When the wrapped \<open>Lock()\<close> returns a non-nil error, \<open>longOperation.Lock()\<close>
  returns that error; no ticker is created, \<open>l.tick\<close>, the mutex and the timeout are as
  before, and no goroutine is started: all that has changed is the state of the wrapped
  locker, by its own \<open>Lock()\<close>, and the history, which records that call.
\<close>

theorem Lock_failure_returns_error:
  assumes "lk_Lock L (lock (wrapper w)) = (Some e, s')"
  shows "\<exists>w'. longOperation_Lock L w = (Returns (Some e), w')
     \<and> tick (wrapper w') = tick (wrapper w) \<and> mu (wrapper w') = mu (wrapper w)
     \<and> timeout (wrapper w') = timeout (wrapper w)
     \<and> tickers w' = tickers w \<and> goroutines w' = goroutines w
     \<and> w' = w\<lparr>wrapper := (wrapper w)\<lparr>lock := s'\<rparr>, calls := calls w @ [CallLock]\<rparr>"
  using assms by (simp add: longOperation_Lock_def)

theorem Lock_failure_returns_error_witness:
  "lk_Lock counting_locker (lock (wrapper (init_world 13 thirty_seconds))) = (Some 0, 13)
   \<and> (\<exists>w'. longOperation_Lock counting_locker (init_world 13 thirty_seconds) = (Returns (Some 0), w')
       \<and> tick (wrapper w') = None \<and> \<not> mu (wrapper w') \<and> tickers w' = [] \<and> goroutines w' = [])"
proof -
  have h: "lk_Lock counting_locker (lock (wrapper (init_world 13 thirty_seconds))) = (Some 0, 13)"
    by (simp add: init_world_def counting_locker_def)
  from Lock_failure_returns_error [OF h] h show ?thesis
    by (auto simp add: init_world_def)
qed

text \<open>
  Claim C1, as stated, fails in two ways. With a timeout of 0 (any timeout below 3
  nanoseconds) the wrapped \<open>Lock()\<close> succeeds and \<open>time.NewTicker\<close> panics on the
  non-positive period: \<open>Lock()\<close> does not return nil and no goroutine is started. And
  \<open>Extend()\<close> is not called at each tick of the ticker: the channel holds one tick and a
  tick that fires while one is waiting there is dropped. With a timeout of thirty seconds
  and three ticks fired, two of them while the goroutine is about to call \<open>Extend()\<close>,
  the goroutine has called \<open>Extend()\<close> twice when it waits again at the empty channel
  of the running ticker.
\<close>

theorem Lock_panics_or_drops_a_tick:
  "fst (lk_Lock counting_locker (lock (wrapper (init_world 0 0)))) = None
   \<and> fst (longOperation_Lock counting_locker (init_world 0 0)) = Panics
   \<and> goroutines (snd (longOperation_Lock counting_locker (init_world 0 0))) = []
   \<and> length (filter (\<lambda>a. a = Fire 0) sched_tick_dropped) = 3
   \<and> run counting_locker sched_tick_dropped (init_world 0 thirty_seconds) =
       \<lparr>wrapper = \<lparr>lock = 21, mu = False, tick = Some 0, timeout = 30000000000\<rparr>,
        tickers = [\<lparr>period = 10000000000, stopped = False, C = False\<rparr>],
        goroutines = [\<lparr>pc = R_recv, ch = Some 0\<rparr>],
        calls = [CallLock, CallExtend, CallExtend], caller = C_held\<rparr>"
  by (simp add: sched_tick_dropped_def eval_defs)

text \<open>
  Claim C1, amended. The wrapped \<open>Lock()\<close> succeeds and the timeout \<open>d\<close> is at least 3
  nanoseconds. Then \<open>longOperation.Lock()\<close> returns nil, having added exactly one
  goroutine, at the head of the renewal loop, and one running ticker of period \<open>d / 3\<close>
  to which \<open>l.tick\<close> points. On a fresh wrapper, after \<open>Lock()\<close> and then any
  interleaving \<open>sched\<close> of the caller, the goroutine and the ticker: there is still one
  goroutine and one ticker, of period \<open>d / 3\<close>; the \<open>Extend()\<close> calls made are the
  ticks received, or one fewer; as long as \<open>l.tick\<close> is not nil the goroutine is still
  in its loop and every tick received has had its \<open>Extend()\<close> call or is between the
  receive and that call; whenever the goroutine waits at its receive and \<open>Unlock()\<close>
  has not taken the mutex, the next tick makes it call \<open>Extend()\<close> once and wait again;
  and once \<open>Unlock()\<close> has taken the mutex no \<open>Extend()\<close> call is made in any
  continuation. In particular, with \<open>n\<close> ticks each received before the next fires, the
  history is the \<open>Lock\<close> call followed by \<open>n\<close> \<open>Extend\<close> calls.
\<close>

theorem Lock_starts_one_renewal_task:
  assumes "lk_Lock L s = (None, s')" and "3 \<le> d"
  shows
    "(lock (wrapper w0) = s \<and> timeout (wrapper w0) = d \<longrightarrow>
        longOperation_Lock L w0 =
          (Returns None,
           w0\<lparr>wrapper := (wrapper w0)\<lparr>lock := s', tick := Some (length (tickers w0))\<rparr>,
              calls := calls w0 @ [CallLock],
              tickers := tickers w0 @ [\<lparr>period = d sdiv 3, stopped = False, C = False\<rparr>],
              goroutines := goroutines w0 @ [\<lparr>pc = R_lock1, ch = None\<rparr>]\<rparr>))
     \<and> length (goroutines (run L sched (locked_world L s d))) = 1
     \<and> length (tickers (run L sched (locked_world L s d))) = 1
     \<and> period (tickers (run L sched (locked_world L s d)) ! 0) = d sdiv 3
     \<and> extends (run L sched (locked_world L s d)) \<le> received L sched (locked_world L s d)
     \<and> received L sched (locked_world L s d) \<le> extends (run L sched (locked_world L s d)) + 1
     \<and> (tick (wrapper (run L sched (locked_world L s d))) \<noteq> None \<longrightarrow>
          received L sched (locked_world L s d)
            = extends (run L sched (locked_world L s d))
              + inflight (pc (goroutines (run L sched (locked_world L s d)) ! 0))
          \<and> pc (goroutines (run L sched (locked_world L s d)) ! 0) \<notin> {R_defer, R_exit, R_panic})
     \<and> ((caller (run L sched (locked_world L s d)) = C_held
           \<or> caller (run L sched (locked_world L s d)) = U_lock)
          \<and> pc (goroutines (run L sched (locked_world L s d)) ! 0) = R_recv \<longrightarrow>
          calls (run L (renew_cycle 0 0) (run L sched (locked_world L s d)))
            = calls (run L sched (locked_world L s d)) @ [CallExtend]
          \<and> lock (wrapper (run L (renew_cycle 0 0) (run L sched (locked_world L s d))))
            = lk_Extend L (lock (wrapper (run L sched (locked_world L s d))))
          \<and> pc (goroutines (run L (renew_cycle 0 0) (run L sched (locked_world L s d))) ! 0) = R_recv)
     \<and> (unlocking (caller (run L sched (locked_world L s d))) \<longrightarrow>
          (\<exists>rest. calls (run L sched' (run L sched (locked_world L s d)))
                    = calls (run L sched (locked_world L s d)) @ rest
                 \<and> CallExtend \<notin> set rest))
     \<and> calls (run L (renew_start 0 @ concat (replicate n (renew_cycle 0 0))) (locked_world L s d))
          = CallLock # replicate n CallExtend"
proof -
  let ?w1 = "locked_world L s d"
  let ?w = "run L sched ?w1"
  let ?r = "received L sched ?w1"
  note w1 = locked_world_eq [OF assms]
  have li: "lock_inv ?w"
    by (rule lock_inv_run [OF locked_world_inv(1) [OF assms]])
  have "renew_inv d (0 + ?r) ?w"
    by (rule renew_inv_run [OF locked_world_inv [OF assms]])
  then obtain g tk where gt: "goroutines ?w = [g]" "tickers ?w = [tk]"
    and per: "period tk = d sdiv 3"
    and st: "stopped tk = (caller ?w \<in> {U_clear, U_inner, U_defer, C_done})"
    and chn: "pc g = R_unlock1 \<or> pc g = R_recv \<longrightarrow> ch g = Some 0"
    and out: "pc g = R_defer \<or> pc g = R_exit \<longrightarrow> tick (wrapper ?w) = None"
    and cnt: "?r = extends ?w + inflight (pc g) \<or> ?r = extends ?w + 1 \<and> (pc g = R_defer \<or> pc g = R_exit)"
    unfolding renew_inv_def by auto
  note lo = lock_inv_one [OF li gt(1)]
  have c1: "lock (wrapper w0) = s \<and> timeout (wrapper w0) = d \<longrightarrow>
        longOperation_Lock L w0 =
          (Returns None,
           w0\<lparr>wrapper := (wrapper w0)\<lparr>lock := s', tick := Some (length (tickers w0))\<rparr>,
              calls := calls w0 @ [CallLock],
              tickers := tickers w0 @ [\<lparr>period = d sdiv 3, stopped = False, C = False\<rparr>],
              goroutines := goroutines w0 @ [\<lparr>pc = R_lock1, ch = None\<rparr>]\<rparr>)"
    using Lock_success [of L w0 s'] assms by auto
  have c2: "length (goroutines ?w) = 1" "length (tickers ?w) = 1"
    "period (tickers ?w ! 0) = d sdiv 3"
    using gt per by simp_all
  have c3: "extends ?w \<le> ?r" "?r \<le> extends ?w + 1"
    using cnt by (auto simp add: inflight_def)
  have c4: "tick (wrapper ?w) \<noteq> None \<longrightarrow>
      ?r = extends ?w + inflight (pc (goroutines ?w ! 0))
      \<and> pc (goroutines ?w ! 0) \<notin> {R_defer, R_exit, R_panic}"
    using cnt out lo(6) gt by auto
  have c5: "calls (run L (renew_cycle 0 0) ?w) = calls ?w @ [CallExtend]
          \<and> lock (wrapper (run L (renew_cycle 0 0) ?w)) = lk_Extend L (lock (wrapper ?w))
          \<and> pc (goroutines (run L (renew_cycle 0 0) ?w) ! 0) = R_recv"
    if h: "caller ?w = C_held \<or> caller ?w = U_lock" and p: "pc (goroutines ?w ! 0) = R_recv"
  proof (rule recv_cycle)
    show "0 < length (goroutines ?w)" using gt by simp
    have "pc g = R_recv" "ch g = Some 0" using p chn gt by simp_all
    then show "goroutines ?w ! 0 = \<lparr>pc = R_recv, ch = Some 0\<rparr>" using gt by simp
    show "0 < length (tickers ?w)" using gt by simp
    show "\<not> stopped (tickers ?w ! 0)" using gt st h by auto
    show "tick (wrapper ?w) = Some 0" using lo(2) h by (auto simp add: before_clear_def)
    show "\<not> mu (wrapper ?w)" using lo(3) h p gt by (auto simp add: holdsC_def holdsR_def)
  qed
  have c6: "unlocking (caller ?w) \<longrightarrow>
          (\<exists>rest. calls (run L sched' ?w) = calls ?w @ rest \<and> CallExtend \<notin> set rest)"
    using unlocking_run [OF li, of L sched'] by blast
  have st1: "waiting 0 0 (run L (renew_start 0) ?w1)
       \<and> calls (run L (renew_start 0) ?w1) = calls ?w1
       \<and> lock (wrapper (run L (renew_start 0) ?w1)) = lock (wrapper ?w1)"
    by (rule waiting_start) (simp_all add: w1)
  have c7: "calls (run L (renew_start 0 @ concat (replicate n (renew_cycle 0 0))) ?w1)
          = CallLock # replicate n CallExtend"
    using waiting_cycles [of 0 0 "run L (renew_start 0) ?w1" L n] st1
    by (simp add: run_append w1)
  from c1 c2 c3 c4 c5 c6 c7 show ?thesis by blast
qed

lemma eval_locked_world:
  "locked_world counting_locker 0 thirty_seconds =
     \<lparr>wrapper = \<lparr>lock = 1, mu = False, tick = Some 0, timeout = 30000000000\<rparr>,
      tickers = [\<lparr>period = 10000000000, stopped = False, C = False\<rparr>],
      goroutines = [\<lparr>pc = R_lock1, ch = None\<rparr>], calls = [CallLock], caller = C_held\<rparr>"
  by (simp add: locked_world_def eval_defs)

lemma eval_unlock_called:
  "run counting_locker sched_unlock_called (locked_world counting_locker 0 thirty_seconds) =
     \<lparr>wrapper = \<lparr>lock = 1, mu = False, tick = Some 0, timeout = 30000000000\<rparr>,
      tickers = [\<lparr>period = 10000000000, stopped = False, C = False\<rparr>],
      goroutines = [\<lparr>pc = R_recv, ch = Some 0\<rparr>], calls = [CallLock], caller = U_lock\<rparr>"
  unfolding eval_locked_world by (simp add: sched_unlock_called_def eval_defs)

lemma eval_cleared_after_Lock:
  "run counting_locker (tl sched_cleared) (locked_world counting_locker 0 thirty_seconds) =
     \<lparr>wrapper = \<lparr>lock = 1, mu = True, tick = None, timeout = 30000000000\<rparr>,
      tickers = [\<lparr>period = 10000000000, stopped = True, C = False\<rparr>],
      goroutines = [\<lparr>pc = R_lock2, ch = Some 0\<rparr>], calls = [CallLock],
      caller = U_inner\<rparr>"
  unfolding eval_locked_world by (simp add: sched_cleared_def eval_defs)

lemma eval_received_cleared:
  "received counting_locker (tl sched_cleared) (locked_world counting_locker 0 thirty_seconds) = 1"
  unfolding eval_locked_world by (simp add: sched_cleared_def takes_tick_def eval_defs)

theorem Lock_starts_one_renewal_task_witness:
  "lk_Lock counting_locker 0 = (None, 1) \<and> 3 \<le> thirty_seconds
   \<and> lock (wrapper (init_world (0::nat) thirty_seconds)) = 0
   \<and> timeout (wrapper (init_world (0::nat) thirty_seconds)) = thirty_seconds
   \<and> fst (longOperation_Lock counting_locker (init_world 0 thirty_seconds)) = Returns None
   \<and> caller (run counting_locker sched_unlock_called (locked_world counting_locker 0 thirty_seconds)) = U_lock
   \<and> pc (goroutines (run counting_locker sched_unlock_called
          (locked_world counting_locker 0 thirty_seconds)) ! 0) = R_recv
   \<and> tick (wrapper (run counting_locker sched_unlock_called
          (locked_world counting_locker 0 thirty_seconds))) \<noteq> None
   \<and> received counting_locker sched_unlock_called (locked_world counting_locker 0 thirty_seconds) = 0
   \<and> calls (run counting_locker (renew_cycle 0 0)
          (run counting_locker sched_unlock_called (locked_world counting_locker 0 thirty_seconds)))
       = [CallLock, CallExtend]
   \<and> unlocking (caller (run counting_locker (tl sched_cleared)
          (locked_world counting_locker 0 thirty_seconds)))
   \<and> received counting_locker (tl sched_cleared) (locked_world counting_locker 0 thirty_seconds) = 1
   \<and> extends (run counting_locker (tl sched_cleared)
          (locked_world counting_locker 0 thirty_seconds)) = 0
   \<and> (\<exists>rest. calls (run counting_locker sched_after
                  (run counting_locker (tl sched_cleared) (locked_world counting_locker 0 thirty_seconds)))
             = calls (run counting_locker (tl sched_cleared)
                  (locked_world counting_locker 0 thirty_seconds)) @ rest
           \<and> CallExtend \<notin> set rest)"
proof -
  have h1: "lk_Lock counting_locker 0 = (None, 1)" by (simp add: counting_locker_def)
  have h2: "3 \<le> thirty_seconds" by (simp add: thirty_seconds_def)
  have h3: "lock (wrapper (init_world (0::nat) thirty_seconds)) = 0
      \<and> timeout (wrapper (init_world (0::nat) thirty_seconds)) = thirty_seconds"
    by (simp add: init_world_def)
  note a = Lock_starts_one_renewal_task
             [OF h1 h2, of "init_world 0 thirty_seconds" sched_unlock_called sched_after 0]
  note b = Lock_starts_one_renewal_task
             [OF h1 h2, of "init_world 0 thirty_seconds" "tl sched_cleared" sched_after 0]
  have e: "caller (run counting_locker sched_unlock_called (locked_world counting_locker 0 thirty_seconds)) = U_lock
      \<and> pc (goroutines (run counting_locker sched_unlock_called
          (locked_world counting_locker 0 thirty_seconds)) ! 0) = R_recv
      \<and> tick (wrapper (run counting_locker sched_unlock_called
          (locked_world counting_locker 0 thirty_seconds))) \<noteq> None
      \<and> calls (run counting_locker sched_unlock_called (locked_world counting_locker 0 thirty_seconds))
          = [CallLock]
      \<and> extends (run counting_locker sched_unlock_called (locked_world counting_locker 0 thirty_seconds)) = 0"
    by (simp add: eval_unlock_called extends_def)
  have u: "unlocking (caller (run counting_locker (tl sched_cleared)
          (locked_world counting_locker 0 thirty_seconds)))
      \<and> extends (run counting_locker (tl sched_cleared)
          (locked_world counting_locker 0 thirty_seconds)) = 0"
    by (simp add: eval_cleared_after_Lock unlocking_def extends_def)
  have d: "fst (longOperation_Lock counting_locker (init_world 0 thirty_seconds)) = Returns None"
    using a h3 by simp
  have r0: "received counting_locker sched_unlock_called (locked_world counting_locker 0 thirty_seconds) = 0"
    using a e by (simp add: inflight_def)
  have f: "calls (run counting_locker (renew_cycle 0 0)
          (run counting_locker sched_unlock_called (locked_world counting_locker 0 thirty_seconds)))
       = [CallLock, CallExtend]"
    using a e by simp
  have g: "\<exists>rest. calls (run counting_locker sched_after
                  (run counting_locker (tl sched_cleared) (locked_world counting_locker 0 thirty_seconds)))
             = calls (run counting_locker (tl sched_cleared)
                  (locked_world counting_locker 0 thirty_seconds)) @ rest
           \<and> CallExtend \<notin> set rest"
    using b u by blast
  from h1 h2 h3 d e r0 f u eval_received_cleared g show ?thesis by blast
qed

text \<open>
  Claim C2. A wrapper is used for one \<open>Lock()\<close> and one \<open>Unlock()\<close>. In every
  interleaving of the caller, the renewal goroutine and the ticker, from the moment
  \<open>Unlock()\<close> holds the mutex (line 83 done), and so in particular once it has set
  \<open>l.tick\<close> to nil (line 87 done), whatever runs next and in whatever order, the history
  of calls on the wrapped lock grows by no \<open>Extend\<close> call; and once line 87 is done,
  \<open>l.tick\<close> is nil.
\<close>

theorem no_Extend_after_Unlock_began:
  assumes "w = run L sched (init_world s d)" and "unlocking (caller w)"
  shows "(\<exists>rest. calls (run L sched' w) = calls w @ rest \<and> CallExtend \<notin> set rest)
       \<and> (cleared (caller w) \<longrightarrow> tick (wrapper w) = None)"
proof -
  have inv: "lock_inv w" using assms(1) lock_inv_run [OF lock_inv_init] by simp
  show ?thesis using unlocking_run [OF inv assms(2)] cleared_tick [OF inv] by blast
qed

lemma eval_sched_cleared:
  "run counting_locker sched_cleared (init_world 0 thirty_seconds) =
     \<lparr>wrapper = \<lparr>lock = 1, mu = True, tick = None, timeout = 30000000000\<rparr>,
      tickers = [\<lparr>period = 10000000000, stopped = True, C = False\<rparr>],
      goroutines = [\<lparr>pc = R_lock2, ch = Some 0\<rparr>], calls = [CallLock],
      caller = U_inner\<rparr>"
  by (simp add: sched_cleared_def eval_defs)

theorem no_Extend_after_Unlock_began_witness:
  "unlocking (caller (run counting_locker sched_cleared (init_world 0 thirty_seconds)))
   \<and> cleared (caller (run counting_locker sched_cleared (init_world 0 thirty_seconds)))
   \<and> tick (wrapper (run counting_locker sched_cleared (init_world 0 thirty_seconds))) = None
   \<and> (\<exists>rest. calls (run counting_locker sched_after
                  (run counting_locker sched_cleared (init_world 0 thirty_seconds)))
              = calls (run counting_locker sched_cleared (init_world 0 thirty_seconds)) @ rest
            \<and> CallExtend \<notin> set rest)
   \<and> calls (run counting_locker sched_after
                  (run counting_locker sched_cleared (init_world 0 thirty_seconds)))
       = [CallLock, CallUnlock]"
proof -
  have u: "unlocking (caller (run counting_locker sched_cleared (init_world 0 thirty_seconds)))"
    by (simp add: eval_sched_cleared unlocking_def)
  have c: "cleared (caller (run counting_locker sched_cleared (init_world 0 thirty_seconds)))"
    by (simp add: eval_sched_cleared cleared_def)
  have e: "calls (run counting_locker sched_after
                  (run counting_locker sched_cleared (init_world 0 thirty_seconds)))
       = [CallLock, CallUnlock]"
    unfolding eval_sched_cleared by (simp add: sched_after_def eval_defs)
  from no_Extend_after_Unlock_began [OF refl u, of sched_after] c u e show ?thesis
    by blast
qed

text \<open>
  Claim C3 asks that the renewal goroutine ends after \<open>Unlock()\<close>. It does not when it is
  waiting at its receive (line 70) and no tick is in the channel: \<open>Stop\<close> does not close
  the channel and no tick comes after it, so the tests of \<open>l.tick\<close> at lines 65 and 72
  are never reached again. With a timeout of thirty seconds and \<open>Unlock()\<close> called before
  the first tick: \<open>Unlock()\<close> returns, having called the wrapped \<open>Unlock()\<close> once and no
  \<open>Extend()\<close>, and in every continuation the goroutine is still at line 70.
\<close>

theorem goroutine_blocked_forever_after_Unlock:
  "caller (run counting_locker sched_unlock_before_tick (init_world 0 thirty_seconds)) = C_done
   \<and> calls (run counting_locker sched_unlock_before_tick (init_world 0 thirty_seconds))
       = [CallLock, CallUnlock]
   \<and> (\<forall>sched. goroutines (run counting_locker sched
          (run counting_locker sched_unlock_before_tick (init_world 0 thirty_seconds)))
        = [\<lparr>pc = R_recv, ch = Some 0\<rparr>])"
proof -
  let ?w = "\<lparr>wrapper = \<lparr>lock = 101, mu = False, tick = None, timeout = 30000000000\<rparr>,
      tickers = [\<lparr>period = 10000000000, stopped = True, C = False\<rparr>],
      goroutines = [\<lparr>pc = R_recv, ch = Some 0\<rparr>],
      calls = [CallLock, CallUnlock], caller = C_done\<rparr> :: nat world"
  have e: "run counting_locker sched_unlock_before_tick (init_world 0 thirty_seconds) = ?w"
    by (simp add: sched_unlock_before_tick_def eval_defs)
  have st: "step counting_locker a ?w = ?w" for a
  proof (cases a)
    case Caller
    then show ?thesis by (simp add: step_def caller_step_def)
  next
    case (Task i)
    then show ?thesis by (cases i) (simp_all add: step_def renewal_step_def)
  next
    case (Fire t)
    then show ?thesis by (cases t) (simp_all add: step_def fire_def)
  qed
  have "run counting_locker sched ?w = ?w" for sched
    by (rule stuck_run) (rule st)
  then show ?thesis unfolding e by simp
qed

section \<open>The key namer and the backends: the claims\<close>

text \<open>
  Claim C6, as stated, fails for the key \<open>tenant + "/" + name\<close>: a slash in the tenant
  identifier or in the name moves the boundary, and two different pairs get one key.
\<close>

theorem key_collision: "key ''a'' ''b/c'' = key ''a/b'' ''c'' \<and> ''a'' \<noteq> ''a/b'' \<and> ''b/c'' \<noteq> ''c''"
  by (simp add: key_def)

text \<open>
  Claim C6, amended. Keys of different tenants for the same resource name differ; and for
  tenant identifiers that contain no slash the key determines the pair: equal keys come
  from equal tenants and equal names.
\<close>

theorem key_distinct:
  "(t1 \<noteq> t2 \<longrightarrow> key t1 n \<noteq> key t2 n)
   \<and> (CHR ''/'' \<notin> set t1 \<and> CHR ''/'' \<notin> set t2 \<and> key t1 n1 = key t2 n2 \<longrightarrow> t1 = t2 \<and> n1 = n2)"
  using key_no_slash [of t1 t2 n1 n2] by (auto simp add: key_def)

theorem key_distinct_witness:
  "''alice.example.net'' \<noteq> ''bob.example.net''
   \<and> key ''alice.example.net'' ''vfs'' \<noteq> key ''bob.example.net'' ''vfs''
   \<and> CHR ''/'' \<notin> set ''a'' \<and> CHR ''/'' \<notin> set ''ab''
   \<and> key ''a'' ''b/c'' \<noteq> key ''ab'' ''c''
   \<and> key ''a'' ''b/c'' = key ''a'' ''b/c''"
  using key_distinct [of "''alice.example.net''" "''bob.example.net''" "''vfs''" "''b/c''" "''c''"]
    key_distinct [of "''a''" "''a''" "''vfs''" "''b/c''" "''b/c''"]
  by (simp add: key_def)

text \<open>
  The state after client 1 acquired the key, its lease of thirty ran out and client 2
  acquired it.
\<close>

lemma eval_reclaimed:
  "held (dexec 30 evs_reclaimed dinit) (1, ''a/b'') = Some 0
   \<and> held (dexec 30 evs_reclaimed dinit) (2, ''a/b'') = Some 1
   \<and> live (dexec 30 evs_reclaimed dinit) ''a/b'' = Some \<lparr>token = 1, expiry = 60\<rparr>"
  by (simp add: evs_reclaimed_def dinit_def backend_defs)

text \<open>
  Claim C7, as stated, fails in the distributed backend: a lease that is neither renewed
  nor released expires, and the next \<open>Lock()\<close> on the key succeeds. Both \<open>Lock()\<close> calls
  have returned success and the first holder has not called \<open>Unlock()\<close>.
\<close>

theorem two_holders_after_expiry:
  "held (dexec 30 evs_reclaimed dinit) (1, ''a/b'') = Some 0
   \<and> held (dexec 30 evs_reclaimed dinit) (2, ''a/b'') = Some 1
   \<and> EvUnlock 1 ''a/b'' \<notin> set evs_reclaimed"
  using eval_reclaimed by (simp add: evs_reclaimed_def)

text \<open>
  Claim C7, amended. In the distributed backend, once a \<open>Lock()\<close> attempt of a client
  has succeeded on a key, every \<open>Lock()\<close> attempt on that key, by any client, fails for
  as long as the first client has not called \<open>Unlock()\<close> and less than the lease has
  elapsed, whatever else the clients do meanwhile. More generally the holder of a live lease
  stays its holder through every operation except its own \<open>Unlock()\<close> and the passing of
  time; an attempt fails while a lease on the key is unexpired; and at most one client
  holds an unexpired lease on a key. In the in-memory backend, which has no expiry, once a
  \<open>Lock()\<close> has returned, every other \<open>Lock()\<close> on the key waits for as long as the
  holder has not called \<open>Unlock()\<close>, and at most one lock object is between its
  \<open>Lock()\<close> and its \<open>Unlock()\<close>.
\<close>

theorem Lock_excludes_until_Unlock_or_expiry:
  "(redis_try_Lock ttl c1 k (dexec ttl evs0 dinit) = (True, w1)
      \<and> EvUnlock c1 k \<notin> set evs \<and> elapsed evs < ttl
        \<longrightarrow> \<not> fst (redis_try_Lock ttl c2 k (dexec ttl evs w1)))
   \<and> (live_holder (dexec ttl evs0 dinit) c1 k \<and> ev \<noteq> EvUnlock c1 k \<and> (\<forall>d. ev \<noteq> EvElapse d) \<and> 0 < ttl
        \<longrightarrow> live_holder (dstep ttl ev (dexec ttl evs0 dinit)) c1 k)
   \<and> (live (dexec ttl evs0 dinit) k \<noteq> None
        \<longrightarrow> \<not> fst (redis_try_Lock ttl c2 k (dexec ttl evs0 dinit)))
   \<and> (live_holder (dexec ttl evs0 dinit) c1 k \<and> live_holder (dexec ttl evs0 dinit) c2 k \<longrightarrow> c1 = c2)
   \<and> (\<not> writer (mexec evs0 minit) k \<and> mreaders (mexec evs0 minit) k = 0 \<and> EvUnlock c1 k \<notin> set evs
        \<longrightarrow> mheld (mem_Lock c1 k (mexec evs0 minit)) (c1, k)
          \<and> mem_Lock c2 k (mexec evs (mem_Lock c1 k (mexec evs0 minit)))
              = mexec evs (mem_Lock c1 k (mexec evs0 minit)))
   \<and> (mheld (mexec evs0 minit) (c1, k) \<and> mheld (mexec evs0 minit) (c2, k) \<longrightarrow> c1 = c2)"
proof -
  have d: "tokens_inv (dexec ttl evs0 dinit)"
    by (rule tokens_inv_dexec [OF tokens_inv_dinit])
  have m: "mem_inv (mexec evs0 minit)"
    by (rule mem_inv_mexec [OF mem_inv_minit])
  have 1: "redis_try_Lock ttl c1 k (dexec ttl evs0 dinit) = (True, w1)
      \<and> EvUnlock c1 k \<notin> set evs \<and> elapsed evs < ttl
        \<longrightarrow> \<not> fst (redis_try_Lock ttl c2 k (dexec ttl evs w1))"
    using second_Lock_fails [of ttl c1 k evs0 w1 evs c2] by blast
  have 2: "live_holder (dexec ttl evs0 dinit) c1 k \<and> ev \<noteq> EvUnlock c1 k \<and> (\<forall>d. ev \<noteq> EvElapse d) \<and> 0 < ttl
        \<longrightarrow> live_holder (dstep ttl ev (dexec ttl evs0 dinit)) c1 k"
    using live_holder_kept [OF d, of c1 k ev ttl] by blast
  have 3: "live (dexec ttl evs0 dinit) k \<noteq> None
        \<longrightarrow> \<not> fst (redis_try_Lock ttl c2 k (dexec ttl evs0 dinit))"
    using try_Lock_fails_while_live [of "dexec ttl evs0 dinit" k ttl c2] by simp
  have 4: "live_holder (dexec ttl evs0 dinit) c1 k \<and> live_holder (dexec ttl evs0 dinit) c2 k \<longrightarrow> c1 = c2"
    using live_holder_unique [OF d, of c1 k c2] by blast
  have 5: "\<not> writer (mexec evs0 minit) k \<and> mreaders (mexec evs0 minit) k = 0 \<and> EvUnlock c1 k \<notin> set evs
        \<longrightarrow> mheld (mem_Lock c1 k (mexec evs0 minit)) (c1, k)
          \<and> mem_Lock c2 k (mexec evs (mem_Lock c1 k (mexec evs0 minit)))
              = mexec evs (mem_Lock c1 k (mexec evs0 minit))"
    using mem_second_Lock_waits [of evs0 k c1 evs c2] by blast
  have 6: "mheld (mexec evs0 minit) (c1, k) \<and> mheld (mexec evs0 minit) (c2, k) \<longrightarrow> c1 = c2"
    using m unfolding mem_inv_def by blast
  from 1 2 3 4 5 6 show ?thesis by blast
qed

lemma eval_first_Lock:
  "redis_try_Lock 30 1 ''a/b'' (dexec 30 [] dinit) = (True, snd (redis_try_Lock 30 1 ''a/b'' dinit))"
  by (simp add: dinit_def redis_try_Lock_def set_if_absent_def live_def)

lemma eval_contended:
  "held (dexec 30 evs_contended dinit) (1, ''a/b'') = Some 0
   \<and> held (dexec 30 evs_contended dinit) (2, ''a/b'') = None
   \<and> live (dexec 30 evs_contended dinit) ''a/b'' = Some \<lparr>token = 0, expiry = 30\<rparr>"
  by (simp add: evs_contended_def dinit_def backend_defs)

theorem Lock_excludes_until_Unlock_or_expiry_witness:
  "redis_try_Lock 30 1 ''a/b'' (dexec 30 [] dinit) = (True, snd (redis_try_Lock 30 1 ''a/b'' dinit))
   \<and> EvUnlock 1 ''a/b'' \<notin> set evs_waiting \<and> elapsed evs_waiting < 30
   \<and> \<not> fst (redis_try_Lock 30 2 ''a/b'' (dexec 30 evs_waiting (snd (redis_try_Lock 30 1 ''a/b'' dinit))))
   \<and> live_holder (dexec 30 evs_contended dinit) 1 ''a/b''
   \<and> live_holder (dstep 30 (EvExtend 1 ''a/b'') (dexec 30 evs_contended dinit)) 1 ''a/b''
   \<and> live (dexec 30 evs_contended dinit) ''a/b'' \<noteq> None
   \<and> \<not> fst (redis_try_Lock 30 2 ''a/b'' (dexec 30 evs_contended dinit))
   \<and> \<not> live_holder (dexec 30 evs_contended dinit) 2 ''a/b''
   \<and> \<not> writer (mexec [] minit) ''a/b'' \<and> mreaders (mexec [] minit) ''a/b'' = 0
   \<and> mheld (mem_Lock 1 ''a/b'' (mexec [] minit)) (1, ''a/b'')
   \<and> mem_Lock 2 ''a/b'' (mexec evs_waiting (mem_Lock 1 ''a/b'' (mexec [] minit)))
       = mexec evs_waiting (mem_Lock 1 ''a/b'' (mexec [] minit))"
proof -
  have a: "redis_try_Lock 30 1 ''a/b'' (dexec 30 [] dinit) = (True, snd (redis_try_Lock 30 1 ''a/b'' dinit))"
    by (rule eval_first_Lock)
  have b: "EvUnlock 1 ''a/b'' \<notin> set evs_waiting" by (simp add: evs_waiting_def)
  have c: "elapsed evs_waiting < 30" by (simp add: evs_waiting_def)
  have e: "live_holder (dexec 30 evs_contended dinit) 1 ''a/b''"
    using eval_contended by (simp add: live_holder_def)
  have n2: "\<not> live_holder (dexec 30 evs_contended dinit) 2 ''a/b''"
    using eval_contended by (simp add: live_holder_def)
  have g: "live (dexec 30 evs_contended dinit) ''a/b'' \<noteq> None"
    using eval_contended by simp
  have x: "EvExtend 1 ''a/b'' \<noteq> EvUnlock 1 ''a/b'' \<and> (\<forall>d. EvExtend 1 ''a/b'' \<noteq> EvElapse d) \<and> (0::nat) < 30"
    by simp
  have m: "\<not> writer (mexec [] minit) ''a/b'' \<and> mreaders (mexec [] minit) ''a/b'' = 0"
    by (simp add: minit_def)
  from Lock_excludes_until_Unlock_or_expiry
         [of 30 1 "''a/b''" "[]" "snd (redis_try_Lock 30 1 ''a/b'' dinit)" evs_waiting 2 "EvExtend 1 ''a/b''"]
       Lock_excludes_until_Unlock_or_expiry
         [of 30 1 "''a/b''" evs_contended "snd (redis_try_Lock 30 1 ''a/b'' dinit)" evs_waiting 2 "EvExtend 1 ''a/b''"]
       a b c e n2 g x m
  show ?thesis by blast
qed

text \<open>
  Claim C8. In the distributed backend, when the token stored under the key is not the
  one the releasing lock object keeps, \<open>Unlock()\<close> deletes nothing: leases, reader
  counts and clock are as before, the stored lease is still there, and whoever held it as
  a live lease still does. \<open>Unlock()\<close> returns no value, so nothing is reported.
\<close>

theorem stale_Unlock_is_noop:
  assumes "held w (c, k) = Some tok" and "live w k = Some l" and "token l \<noteq> tok"
  shows "leases (redis_Unlock c k w) = leases w \<and> readers (redis_Unlock c k w) = readers w
       \<and> now (redis_Unlock c k w) = now w
       \<and> live (redis_Unlock c k w) k = Some l
       \<and> (\<forall>c'. live_holder w c' k \<longrightarrow> live_holder (redis_Unlock c k w) c' k)"
proof -
  have u: "redis_Unlock c k w = w\<lparr>held := (held w)((c, k) := None)\<rparr>"
    using assms by (simp add: redis_Unlock_def delete_if_equals_def)
  have "live_holder (w\<lparr>held := (held w)((c, k) := None)\<rparr>) c' k" if "live_holder w c' k" for c'
    using that assms by (auto simp add: live_holder_def live_def split: option.splits if_splits)
  moreover have "live (w\<lparr>held := (held w)((c, k) := None)\<rparr>) k = live w k"
    by (simp add: live_def split: option.splits)
  ultimately show ?thesis using assms(2) unfolding u by simp
qed

theorem stale_Unlock_is_noop_witness:
  "held (dexec 30 evs_reclaimed dinit) (1, ''a/b'') = Some 0
   \<and> live (dexec 30 evs_reclaimed dinit) ''a/b'' = Some \<lparr>token = 1, expiry = 60\<rparr>
   \<and> token \<lparr>token = 1, expiry = 60\<rparr> \<noteq> 0
   \<and> live_holder (dexec 30 evs_reclaimed dinit) 2 ''a/b''
   \<and> leases (redis_Unlock 1 ''a/b'' (dexec 30 evs_reclaimed dinit)) = leases (dexec 30 evs_reclaimed dinit)
   \<and> live (redis_Unlock 1 ''a/b'' (dexec 30 evs_reclaimed dinit)) ''a/b'' = Some \<lparr>token = 1, expiry = 60\<rparr>
   \<and> live_holder (redis_Unlock 1 ''a/b'' (dexec 30 evs_reclaimed dinit)) 2 ''a/b''"
proof -
  have h1: "held (dexec 30 evs_reclaimed dinit) (1, ''a/b'') = Some 0"
    and h2: "live (dexec 30 evs_reclaimed dinit) ''a/b'' = Some \<lparr>token = 1, expiry = 60\<rparr>"
    and h4: "held (dexec 30 evs_reclaimed dinit) (2, ''a/b'') = Some 1"
    using eval_reclaimed by simp_all
  have h3: "token \<lparr>token = 1, expiry = 60\<rparr> \<noteq> 0" by simp
  have lh: "live_holder (dexec 30 evs_reclaimed dinit) 2 ''a/b''"
    by (simp add: live_holder_def h2 h4)
  from stale_Unlock_is_noop [OF h1 h2 h3] h1 h2 h3 lh show ?thesis by blast
qed

end
